theory Spec2Isabelle
  imports Main "HOL-Library.Sublist"
begin

section \<open>Text and regular expressions as the checker script uses them\<close>

text \<open>
  The script \<^verbatim>\<open>scripts/azure-config-check.py\<close> reads a template as a Python
  \<^verbatim>\<open>str\<close> and inspects it with \<^verbatim>\<open>re.search\<close>, \<^verbatim>\<open>re.match\<close>,
  \<^verbatim>\<open>re.findall\<close> and the substring test \<^verbatim>\<open>in\<close>. A text is a list of
  characters; a \<^typ>\<open>char\<close> stands for the code point of the same number, so the
  texts covered are those whose code points are below 256. The character tables below
  are the ones Python's \<^verbatim>\<open>re\<close> applies to a \<^verbatim>\<open>str\<close> on that range.
\<close>

text \<open>\<^verbatim>\<open>ord(c)\<close>\<close>

definition code :: "char \<Rightarrow> int" where
  "code c = of_char c"

definition between :: "int \<Rightarrow> int \<Rightarrow> char \<Rightarrow> bool" where
  "between lo hi c = (lo \<le> code c \<and> code c \<le> hi)"

text \<open>\<^verbatim>\<open>\s\<close>: tab to carriage return, the four separators 28 to 31, space, NEL, NBSP.\<close>

definition is_space :: "char \<Rightarrow> bool" where
  "is_space c = (between 9 13 c \<or> between 28 32 c \<or> code c = 133 \<or> code c = 160)"

text \<open>\<^verbatim>\<open>\w\<close>: the alphanumeric code points and the underscore.\<close>

definition is_word :: "char \<Rightarrow> bool" where
  "is_word c = (between 48 57 c \<or> between 65 90 c \<or> code c = 95 \<or> between 97 122 c
     \<or> code c = 170 \<or> between 178 179 c \<or> code c = 181 \<or> between 185 186 c
     \<or> between 188 190 c \<or> between 192 214 c \<or> between 216 246 c \<or> between 248 255 c)"

text \<open>The lower-case mapping that \<^verbatim>\<open>re.IGNORECASE\<close> compares under.\<close>

definition lower :: "char \<Rightarrow> char" where
  "lower c = (if between 65 90 c \<or> between 192 214 c \<or> between 216 222 c
              then char_of (code c + 32) else c)"

text \<open>
  The patterns of the script use literals, \<^verbatim>\<open>.\<close>, bracket sets, \<^verbatim>\<open>\s\<close>,
  \<^verbatim>\<open>\w\<close>, \<^verbatim>\<open>^\<close>, \<^verbatim>\<open>$\<close>, concatenation, one alternation, capture
  groups, and the greedy quantifiers \<^verbatim>\<open>*\<close>, \<^verbatim>\<open>+\<close>, \<^verbatim>\<open>{m,n}\<close>,
  \<^verbatim>\<open>{m,}\<close>, each applied to a single-character item.
\<close>

datatype citem = Single char | Range char char | Word_class | Space_class

datatype atom =
    Chr char
  | Dot
  | Set bool "citem list"

datatype regex =
    Eps
  | Atom atom
  | Bol
  | Eol
  | Seq regex regex
  | Alt regex regex
  | Rep atom nat "nat option"
  | Grp nat regex

record flags =
  ignorecase :: bool
  dotall :: bool

definition no_flags :: flags where
  "no_flags = \<lparr>ignorecase = False, dotall = False\<rparr>"

fun in_item :: "char \<Rightarrow> citem \<Rightarrow> bool" where
  "in_item c (Single a) = (c = a)"
| "in_item c (Range a b) = (code a \<le> code c \<and> code c \<le> code b)"
| "in_item c Word_class = is_word c"
| "in_item c Space_class = is_space c"

text \<open>
  Membership in a bracket set. The sets that the script uses together with
  \<^verbatim>\<open>re.IGNORECASE\<close> hold no letters (\<^verbatim>\<open>[:=]\<close>, \<^verbatim>\<open>['"]\<close>,
  \<^verbatim>\<open>[^'"]\<close>); for such a set the test under that flag, on the character or on
  its lower case, is the plain test.
\<close>

definition in_items :: "flags \<Rightarrow> citem list \<Rightarrow> char \<Rightarrow> bool" where
  "in_items f items c =
     (list_ex (in_item c) items \<or> (ignorecase f \<and> list_ex (in_item (lower c)) items))"

fun atom_ok :: "flags \<Rightarrow> atom \<Rightarrow> char \<Rightarrow> bool" where
  "atom_ok f (Chr a) c = (if ignorecase f then lower c = lower a else c = a)"
| "atom_ok f Dot c = (dotall f \<or> c \<noteq> CHR 0x0A)"
| "atom_ok f (Set neg items) c = (in_items f items c \<noteq> neg)"

text \<open>
  A configuration is the text not yet consumed together with the groups captured so far.
  The matcher returns the configurations a pattern can end in, in the order in which a
  backtracking matcher tries them: the left alternative before the right one, a longer
  repetition before a shorter one. The number \<open>n\<close> is the length of the whole subject,
  so that \<^verbatim>\<open>^\<close> holds where nothing has been consumed; \<^verbatim>\<open>$\<close> holds at the end
  and before a final newline.
\<close>

type_synonym groups = "nat \<Rightarrow> string option"
type_synonym config = "string \<times> groups"

definition rep_ends :: "(char \<Rightarrow> bool) \<Rightarrow> nat \<Rightarrow> nat option \<Rightarrow> string \<Rightarrow> string list" where
  "rep_ends ok lo hi s =
     (let run = length (takeWhile ok s);
          top = (case hi of None \<Rightarrow> run | Some h \<Rightarrow> min h run)
      in map (\<lambda>k. drop k s) (rev [lo ..< Suc top]))"

primrec rmatch :: "regex \<Rightarrow> flags \<Rightarrow> nat \<Rightarrow> config \<Rightarrow> config list" where
  "rmatch Eps f n = (\<lambda>cfg. [cfg])"
| "rmatch (Atom a) f n = (\<lambda>(s, g).
     case s of [] \<Rightarrow> [] | c # t \<Rightarrow> if atom_ok f a c then [(t, g)] else [])"
| "rmatch Bol f n = (\<lambda>(s, g). if length s = n then [(s, g)] else [])"
| "rmatch Eol f n = (\<lambda>(s, g). if s = [] \<or> s = [CHR 0x0A] then [(s, g)] else [])"
| "rmatch (Seq r1 r2) f n = (\<lambda>cfg. concat (map (rmatch r2 f n) (rmatch r1 f n cfg)))"
| "rmatch (Alt r1 r2) f n = (\<lambda>cfg. rmatch r1 f n cfg @ rmatch r2 f n cfg)"
| "rmatch (Rep a lo hi) f n = (\<lambda>(s, g). map (\<lambda>t. (t, g)) (rep_ends (atom_ok f a) lo hi s))"
| "rmatch (Grp k r) f n = (\<lambda>(s, g).
     map (\<lambda>(t, g'). (t, g'(k \<mapsto> take (length s - length t) s))) (rmatch r f n (s, g)))"

definition match_here :: "regex \<Rightarrow> flags \<Rightarrow> nat \<Rightarrow> string \<Rightarrow> config option" where
  "match_here r f n s = (case rmatch r f n (s, Map.empty) of [] \<Rightarrow> None | cfg # _ \<Rightarrow> Some cfg)"

text \<open>\<^verbatim>\<open>re.match\<close>: a match that starts at the first character.\<close>

definition re_match :: "regex \<Rightarrow> flags \<Rightarrow> string \<Rightarrow> config option" where
  "re_match r f s = match_here r f (length s) s"

text \<open>\<^verbatim>\<open>re.search\<close>: the match at the leftmost position that has one.\<close>

fun search_from :: "regex \<Rightarrow> flags \<Rightarrow> nat \<Rightarrow> string \<Rightarrow> config option" where
  "search_from r f n [] = match_here r f n []"
| "search_from r f n (c # t) =
     (case match_here r f n (c # t) of Some cfg \<Rightarrow> Some cfg | None \<Rightarrow> search_from r f n t)"

definition re_search :: "regex \<Rightarrow> flags \<Rightarrow> string \<Rightarrow> config option" where
  "re_search r f s = search_from r f (length s) s"

text \<open>\<^verbatim>\<open>m.group(k)\<close>; a group that took no part in the match gives \<open>None\<close>.\<close>

definition group :: "config \<Rightarrow> nat \<Rightarrow> string option" where
  "group cfg k = snd cfg k"

text \<open>
  \<^verbatim>\<open>re.findall\<close> for a pattern with two groups: the pairs of captured texts of the
  successive non-overlapping matches, scanning from the left. A group that took no part
  gives the empty text. The scan resumes where a match ended; after a match that consumed
  nothing it moves one character on.
\<close>

definition group_text :: "config \<Rightarrow> nat \<Rightarrow> string" where
  "group_text cfg k = (case group cfg k of None \<Rightarrow> [] | Some v \<Rightarrow> v)"

function findall_from :: "regex \<Rightarrow> flags \<Rightarrow> nat \<Rightarrow> string \<Rightarrow> (string \<times> string) list" where
  "findall_from r f n s =
     (case match_here r f n s of
        None \<Rightarrow> (case s of [] \<Rightarrow> [] | _ # t \<Rightarrow> findall_from r f n t)
      | Some cfg \<Rightarrow>
          (group_text cfg 1, group_text cfg 2) #
          (if length (fst cfg) < length s then findall_from r f n (fst cfg)
           else (case s of [] \<Rightarrow> [] | _ # t \<Rightarrow> findall_from r f n t)))"
  by pat_completeness auto
termination
  by (relation "measure (\<lambda>(r, f, n, s). length s)") auto

definition re_findall :: "regex \<Rightarrow> flags \<Rightarrow> string \<Rightarrow> (string \<times> string) list" where
  "re_findall r f s = findall_from r f (length s) s"

text \<open>Helpers to write a pattern down as it reads.\<close>

definition seqs :: "regex list \<Rightarrow> regex" where
  "seqs rs = foldr Seq rs Eps"

definition lit :: "string \<Rightarrow> regex" where
  "lit s = seqs (map (\<lambda>c. Atom (Chr c)) s)"

definition star :: "atom \<Rightarrow> regex" where
  "star a = Rep a 0 None"

definition plus :: "atom \<Rightarrow> regex" where
  "plus a = Rep a 1 None"

definition sq :: char where
  "sq = CHR 0x27"

definition dq :: char where
  "dq = CHR 0x22"

definition any :: atom where
  "any = Dot"

definition spaces :: regex where
  "spaces = plus (Set False [Space_class])"

section \<open>The checker: state and rule tables\<close>

text \<open>
  \<^verbatim>\<open>AzureConfigChecker.__init__\<close> creates the two lists \<^verbatim>\<open>self.errors\<close> and
  \<^verbatim>\<open>self.warnings\<close>. The state below holds them together with what the run shows
  to its environment: the lines printed, in order, and the paths handed to
  \<^verbatim>\<open>open\<close>, in order. A printed line that starts with a pictograph is a
  constructor of its own; every other line is its text.
\<close>

datatype out =
    Line string
  | Errors_heading
  | Warnings_heading
  | All_passed
  | Tips_heading

record state =
  errors :: "string list"
  warnings :: "string list"
  stdout :: "out list"
  opened :: "string list"

definition init :: state where
  "init = \<lparr>errors = [], warnings = [], stdout = [], opened = []\<rparr>"

definition add_error :: "string \<Rightarrow> state \<Rightarrow> state" where
  "add_error msg st = st\<lparr>errors := errors st @ [msg]\<rparr>"

definition add_warning :: "string \<Rightarrow> state \<Rightarrow> state" where
  "add_warning msg st = st\<lparr>warnings := warnings st @ [msg]\<rparr>"

definition print :: "out \<Rightarrow> state \<Rightarrow> state" where
  "print l st = st\<lparr>stdout := stdout st @ [l]\<rparr>"

text \<open>
  An entry of \<^verbatim>\<open>self.security_rules\<close>. The keys \<^verbatim>\<open>'invert'\<close> and
  \<^verbatim>\<open>'required'\<close> are absent from some entries; \<^verbatim>\<open>rule_config.get(key, False)\<close>
  reads them.
\<close>

record security_rule =
  pattern :: regex
  message :: string
  severity :: string
  invert :: "bool option"
  required :: "bool option"

definition get_flag :: "bool option \<Rightarrow> bool" where
  "get_flag v = (case v of None \<Rightarrow> False | Some b \<Rightarrow> b)"

definition security_rules :: "(string \<times> security_rule) list" where
  "security_rules =
   [(''key_vault_access_policies'',
     \<lparr>pattern = seqs [lit ''accessPolicies'', star any, lit ''permissions'', star any,
                       lit ''secrets'', star any, lit ''['', star any, lit ''get'', star any,
                       lit ''list'', star any, lit '']''],
      message = ''Key Vault should use least privilege access policies'',
      severity = ''warning'', invert = None, required = None\<rparr>),
    (''storage_account_secure_transfer'',
     \<lparr>pattern = seqs [lit ''supportsHttpsTrafficOnly'', star any, lit ''true''],
      message = ''Storage accounts should require secure transfer (HTTPS)'',
      severity = ''error'', invert = None, required = Some True\<rparr>),
    (''app_service_https_only'',
     \<lparr>pattern = seqs [lit ''httpsOnly'', star any, lit ''true''],
      message = ''App Services should enforce HTTPS only'',
      severity = ''error'', invert = None, required = Some True\<rparr>),
    (''managed_identity'',
     \<lparr>pattern = Alt (seqs [lit ''identity'', star any, lit ''type'', star any,
                            lit ''SystemAssigned''])
                     (lit ''UserAssigned''),
      message = ''Resources should use managed identity instead of service principals'',
      severity = ''warning'', invert = None, required = None\<rparr>),
    (''network_security_groups'',
     \<lparr>pattern = seqs [lit ''securityRules'', star any, lit ''access'', star any,
                       lit ''Allow'', star any, lit ''*'', star any, lit ''*''],
      message = ''NSG rules should not allow unrestricted access (*:*)'',
      severity = ''error'', invert = Some True, required = None\<rparr>),
    (''sql_server_firewall'',
     \<lparr>pattern = seqs [lit ''firewallRules'', star any, lit ''startIpAddress'', star any,
                       lit ''0.0.0.0'', star any, lit ''endIpAddress'', star any,
                       lit ''255.255.255.255''],
      message = ''SQL Server should not allow unrestricted firewall access (0.0.0.0-255.255.255.255)'',
      severity = ''error'', invert = Some True, required = None\<rparr>)]"

text \<open>
  An entry of \<^verbatim>\<open>self.naming_rules\<close>: the pattern as the script writes it (the
  warning quotes it) and the pattern as \<^verbatim>\<open>re\<close> reads it.
\<close>

record naming_rule =
  text_of :: string
  regex_of :: regex

definition lower_digit :: "citem list" where
  "lower_digit = [Range CHR ''a'' CHR ''z'', Range CHR ''0'' CHR ''9'']"

definition lower_digit_dash :: "citem list" where
  "lower_digit_dash = [Range CHR ''a'' CHR ''z'', Range CHR ''0'' CHR ''9'', Single CHR ''-'']"

definition prefixed :: "string \<Rightarrow> regex" where
  "prefixed p = seqs [Bol, lit p, plus (Set False lower_digit_dash), Eol]"

definition naming_rules :: "(string \<times> naming_rule) list" where
  "naming_rules =
   [(''resource_group'', \<lparr>text_of = ''^rg-[a-z0-9-]+$'', regex_of = prefixed ''rg-''\<rparr>),
    (''storage_account'',
     \<lparr>text_of = ''^st[a-z0-9]{3,22}$'',
      regex_of = seqs [Bol, lit ''st'', Rep (Set False lower_digit) 3 (Some 22), Eol]\<rparr>),
    (''key_vault'', \<lparr>text_of = ''^kv-[a-z0-9-]+$'', regex_of = prefixed ''kv-''\<rparr>),
    (''app_service'', \<lparr>text_of = ''^app-[a-z0-9-]+$'', regex_of = prefixed ''app-''\<rparr>),
    (''app_service_plan'', \<lparr>text_of = ''^asp-[a-z0-9-]+$'', regex_of = prefixed ''asp-''\<rparr>),
    (''sql_server'', \<lparr>text_of = ''^sql-[a-z0-9-]+$'', regex_of = prefixed ''sql-''\<rparr>),
    (''cosmos_db'', \<lparr>text_of = ''^cosmos-[a-z0-9-]+$'', regex_of = prefixed ''cosmos-''\<rparr>)]"

section \<open>The four checks\<close>

text \<open>\<^verbatim>\<open>f"{file_path}: {message}"\<close>\<close>

definition finding :: "string \<Rightarrow> string \<Rightarrow> string" where
  "finding file_path msg = file_path @ '': '' @ msg"

definition record_finding :: "string \<Rightarrow> string \<Rightarrow> state \<Rightarrow> state" where
  "record_finding sev msg st = (if sev = ''error'' then add_error msg st else add_warning msg st)"

definition ic_dotall :: flags where
  "ic_dotall = \<lparr>ignorecase = True, dotall = True\<rparr>"

definition ic :: flags where
  "ic = \<lparr>ignorecase = True, dotall = False\<rparr>"

text \<open>The truth value of a match object: \<^verbatim>\<open>None\<close> is false, a match is true.\<close>

definition found :: "config option \<Rightarrow> bool" where
  "found m = (m \<noteq> None)"

text \<open>The body of the loop of \<^verbatim>\<open>_check_security_rules\<close>, for one rule.\<close>

definition check_rule :: "string \<Rightarrow> string \<Rightarrow> state \<Rightarrow> security_rule \<Rightarrow> state" where
  "check_rule content file_path st rule =
     (let matches = found (re_search (pattern rule) ic_dotall content) in
      if get_flag (invert rule) then
        (if matches then record_finding (severity rule) (finding file_path (message rule)) st
         else st)
      else
        (if \<not> matches \<and> get_flag (required rule)
         then record_finding (severity rule) (finding file_path (message rule)) st
         else st))"

definition check_security_rules :: "string \<Rightarrow> string \<Rightarrow> state \<Rightarrow> state" where
  "check_security_rules content file_path st =
     foldl (check_rule content file_path) st (map snd security_rules)"

text \<open>\<^verbatim>\<open>resource\s+(\w+)\s+'([^']+)'\s+=\s+{\<close>\<close>

definition resource_pattern :: regex where
  "resource_pattern =
     seqs [lit ''resource'', spaces, Grp 1 (plus (Set False [Word_class])), spaces,
           Atom (Chr sq), Grp 2 (plus (Set True [Single sq])), Atom (Chr sq), spaces,
           lit ''='', spaces, lit ''{'']"

text \<open>\<^verbatim>\<open>name:\s*'([^']+)'\<close>\<close>

definition name_pattern :: regex where
  "name_pattern =
     seqs [lit ''name:'', star (Set False [Space_class]),
           Atom (Chr sq), Grp 1 (plus (Set True [Single sq])), Atom (Chr sq)]"

definition type_mapping :: "(string \<times> string) list" where
  "type_mapping =
   [(''Microsoft.Resources/resourceGroups'', ''resource_group''),
    (''Microsoft.Storage/storageAccounts'', ''storage_account''),
    (''Microsoft.KeyVault/vaults'', ''key_vault''),
    (''Microsoft.Web/sites'', ''app_service''),
    (''Microsoft.Web/serverfarms'', ''app_service_plan''),
    (''Microsoft.Sql/servers'', ''sql_server''),
    (''Microsoft.DocumentDB/databaseAccounts'', ''cosmos_db'')]"

definition naming_message :: "string \<Rightarrow> string \<Rightarrow> string \<Rightarrow> string \<Rightarrow> string" where
  "naming_message file_path resource_name resource_type pat =
     file_path @ '': Resource '' @ [sq] @ resource_name @ [sq] @ '' of type '' @ [sq]
       @ resource_type @ [sq] @ '' should follow naming convention: '' @ pat"

text \<open>
  The body of the loop of \<^verbatim>\<open>_check_naming_conventions\<close>, for one extracted pair.
  Group 1 of \<^verbatim>\<open>name_pattern\<close> takes part in every match of it, so
  \<^verbatim>\<open>name_match.group(1)\<close> is a text.
\<close>

definition check_declaration :: "string \<Rightarrow> string \<Rightarrow> state \<Rightarrow> string \<times> string \<Rightarrow> state" where
  "check_declaration content file_path st decl =
     (case decl of (resource_name, resource_type) \<Rightarrow>
        (case map_of type_mapping resource_type of
           None \<Rightarrow> st
         | Some naming_type \<Rightarrow>
             (if naming_type = [] then st
              else
                (case map_of naming_rules naming_type of
                   None \<Rightarrow> st
                 | Some rule \<Rightarrow>
                     (case re_search name_pattern no_flags content of
                        None \<Rightarrow> st
                      | Some name_match \<Rightarrow>
                          (let resource_actual_name = group_text name_match 1 in
                           if \<not> found (re_match (regex_of rule) no_flags resource_actual_name)
                           then add_warning
                                  (naming_message file_path resource_name resource_type
                                     (text_of rule)) st
                           else st))))))"

definition check_naming_conventions :: "string \<Rightarrow> string \<Rightarrow> state \<Rightarrow> state" where
  "check_naming_conventions content file_path st =
     (let resources = re_findall resource_pattern no_flags content
      in foldl (check_declaration content file_path) st resources)"

text \<open>The five pairs of \<^verbatim>\<open>hardcoded_patterns\<close>.\<close>

definition quote :: atom where
  "quote = Set False [Single sq, Single dq]"

definition no_quote :: atom where
  "no_quote = Set True [Single sq, Single dq]"

definition assign :: atom where
  "assign = Set False [Single CHR '':'', Single CHR ''='']"

definition keyword_literal :: "string \<Rightarrow> regex" where
  "keyword_literal kw =
     seqs [lit kw, star any, Atom assign, star any, Atom quote, plus no_quote, Atom quote]"

definition hardcoded_patterns :: "(regex \<times> string) list" where
  "hardcoded_patterns =
   [(seqs [lit ''password'', star any, Atom assign, star any, Atom quote,
           Rep no_quote 8 None, Atom quote],
     ''Possible hardcoded password''),
    (keyword_literal ''connectionString'', ''Possible hardcoded connection string''),
    (keyword_literal ''apiKey'', ''Possible hardcoded API key''),
    (keyword_literal ''secret'', ''Possible hardcoded secret''),
    (keyword_literal ''token'', ''Possible hardcoded token'')]"

definition check_hardcoded :: "string \<Rightarrow> string \<Rightarrow> state \<Rightarrow> regex \<times> string \<Rightarrow> state" where
  "check_hardcoded content file_path st pm =
     (case pm of (pat, msg) \<Rightarrow>
        if found (re_search pat ic content) then add_error (finding file_path msg) st else st)"

definition check_hardcoded_values :: "string \<Rightarrow> string \<Rightarrow> state \<Rightarrow> state" where
  "check_hardcoded_values content file_path st =
     foldl (check_hardcoded content file_path) st hardcoded_patterns"

text \<open>\<^verbatim>\<open>x in content\<close> on texts is \<^term>\<open>sublist x content\<close>.\<close>

definition check_resource_dependencies :: "string \<Rightarrow> string \<Rightarrow> state \<Rightarrow> state" where
  "check_resource_dependencies content file_path st =
     (let st1 =
        (if sublist ''Microsoft.KeyVault/vaults'' content then
           (if sublist ''Microsoft.Web/sites'' content
               \<or> sublist ''Microsoft.ContainerInstance/containerGroups'' content then
              (if \<not> sublist ''accessPolicies'' content then
                 add_warning (finding file_path
                   ''Resources using Key Vault should have proper access policies defined'') st
               else st)
            else st)
         else st)
      in
        (if sublist ''Microsoft.Web/sites'' content then
           (if \<not> sublist ''vnetRouteAllEnabled'' content then
              add_warning (finding file_path
                ''App Services should consider VNet integration for enhanced security'') st1
            else st1)
         else st1))"

section \<open>One file, and the run\<close>

text \<open>
  The file system gives, for a path, either the text of the file or the reason
  (\<^verbatim>\<open>str(e)\<close>) for which \<^verbatim>\<open>open\<close> or \<^verbatim>\<open>read\<close> raised. The
  \<^verbatim>\<open>try\<close> of \<^verbatim>\<open>check_file\<close> turns that exception into an error entry
  and the result \<^verbatim>\<open>False\<close>.
\<close>

type_synonym filesystem = "string \<Rightarrow> string + string"

definition check_file :: "filesystem \<Rightarrow> string \<Rightarrow> state \<Rightarrow> bool \<times> state" where
  "check_file fs file_path st =
     (let st0 = st\<lparr>opened := opened st @ [file_path]\<rparr> in
      case fs file_path of
        Inl reason \<Rightarrow>
          (False, add_error (''Error reading '' @ file_path @ '': '' @ reason) st0)
      | Inr content \<Rightarrow>
          (let st1 = print (Line (''Checking '' @ file_path @ ''...'')) st0;
               st2 = check_security_rules content file_path st1;
               st3 = check_naming_conventions content file_path st2;
               st4 = check_hardcoded_values content file_path st3;
               st5 = check_resource_dependencies content file_path st4
           in (length (errors st5) = 0, st5)))"

definition print_results :: "state \<Rightarrow> bool \<times> state" where
  "print_results st =
     (let st1 = (if errors st \<noteq> []
                 then foldl (\<lambda>s e. print (Line (''  '' @ e)) s) (print Errors_heading st) (errors st)
                 else st);
          st2 = (if warnings st \<noteq> []
                 then foldl (\<lambda>s w. print (Line (''  '' @ w)) s) (print Warnings_heading st1)
                        (warnings st)
                 else st1);
          st3 = (if errors st = [] \<and> warnings st = [] then print All_passed st2 else st2)
      in (length (errors st) = 0, st3))"

text \<open>The body of the loop of \<^verbatim>\<open>main\<close>, for one argument.\<close>

definition main_step :: "filesystem \<Rightarrow> bool \<times> state \<Rightarrow> string \<Rightarrow> bool \<times> state" where
  "main_step fs acc file_path =
     (case acc of (all_passed, st) \<Rightarrow>
        if \<not> suffix ''.bicep'' file_path then (all_passed, st)
        else (case check_file fs file_path st of
                (ok, st') \<Rightarrow> (if \<not> ok then False else all_passed, st')))"

definition tips :: "out list" where
  "tips =
   [Tips_heading,
    Line ''  - Use Azure Key Vault for secrets management'',
    Line ''  - Enable HTTPS-only for web applications'',
    Line ''  - Use managed identities instead of service principals'',
    Line ''  - Follow Azure naming conventions'',
    Line ''  - Avoid hardcoded secrets in templates'']"

text \<open>
  \<^verbatim>\<open>main\<close>, from \<^verbatim>\<open>sys.argv\<close> (the script's own name first) to the exit
  status and the final state.
\<close>

definition main :: "filesystem \<Rightarrow> string list \<Rightarrow> int \<times> state" where
  "main fs argv =
     (if length argv < 2 then
        (1, print (Line ''Usage: python azure-config-check.py <file1> [file2] ...'') init)
      else
        (case foldl (main_step fs) (True, init) (drop 1 argv) of
           (all_passed, st) \<Rightarrow>
             (case print_results st of
                (success, st') \<Rightarrow>
                  if \<not> success then (1, foldl (\<lambda>s l. print l s) st' tips)
                  else (0, st'))))"

section \<open>What the checks add, as functions of the text\<close>


definition extend :: "string list \<Rightarrow> string list \<Rightarrow> state \<Rightarrow> state" where
  "extend es ws st = st\<lparr>errors := errors st @ es, warnings := warnings st @ ws\<rparr>"

text \<open>One entry at the given severity is appended, and nothing else changes.\<close>

definition records_one :: "string \<Rightarrow> string \<Rightarrow> state \<Rightarrow> state \<Rightarrow> bool" where
  "records_one sev msg st st' =
     ((sev = ''error'' \<and> st' = st\<lparr>errors := errors st @ [msg]\<rparr>)
      \<or> (sev = ''warning'' \<and> st' = st\<lparr>warnings := warnings st @ [msg]\<rparr>))"

definition rule_violated :: "string \<Rightarrow> security_rule \<Rightarrow> bool" where
  "rule_violated content rule =
     (if get_flag (invert rule) then found (re_search (pattern rule) ic_dotall content)
      else \<not> found (re_search (pattern rule) ic_dotall content) \<and> get_flag (required rule))"

definition security_errors :: "string \<Rightarrow> string \<Rightarrow> string list" where
  "security_errors content file_path =
     map (\<lambda>r. finding file_path (message r))
       (filter (\<lambda>r. rule_violated content r \<and> severity r = ''error'') (map snd security_rules))"

definition security_warnings :: "string \<Rightarrow> string \<Rightarrow> string list" where
  "security_warnings content file_path =
     map (\<lambda>r. finding file_path (message r))
       (filter (\<lambda>r. rule_violated content r \<and> severity r \<noteq> ''error'') (map snd security_rules))"

text \<open>The text that \<^verbatim>\<open>name_match.group(1)\<close> gives for a template, if there is a match.\<close>

definition declared_name :: "string \<Rightarrow> string option" where
  "declared_name content =
     map_option (\<lambda>m. group_text m 1) (re_search name_pattern no_flags content)"

definition rule_for_type :: "string \<Rightarrow> naming_rule option" where
  "rule_for_type resource_type =
     (case map_of type_mapping resource_type of
        None \<Rightarrow> None
      | Some naming_type \<Rightarrow> if naming_type = [] then None else map_of naming_rules naming_type)"

definition declaration_warnings ::
  "string \<Rightarrow> string option \<Rightarrow> string \<times> string \<Rightarrow> string list" where
  "declaration_warnings file_path name decl =
     (case rule_for_type (snd decl) of
        None \<Rightarrow> []
      | Some rule \<Rightarrow>
          (case name of
             None \<Rightarrow> []
           | Some n \<Rightarrow>
               if found (re_match (regex_of rule) no_flags n) then []
               else [naming_message file_path (fst decl) (snd decl) (text_of rule)]))"

definition hardcoded_errors :: "string \<Rightarrow> string \<Rightarrow> string list" where
  "hardcoded_errors content file_path =
     map (\<lambda>pm. finding file_path (snd pm))
       (filter (\<lambda>pm. found (re_search (fst pm) ic content)) hardcoded_patterns)"

definition access_policy_warning :: string where
  "access_policy_warning = ''Resources using Key Vault should have proper access policies defined''"

definition vnet_warning :: string where
  "vnet_warning = ''App Services should consider VNet integration for enhanced security''"

definition dependency_warnings :: "string \<Rightarrow> string \<Rightarrow> string list" where
  "dependency_warnings content file_path =
     (if sublist ''Microsoft.KeyVault/vaults'' content
         \<and> (sublist ''Microsoft.Web/sites'' content
              \<or> sublist ''Microsoft.ContainerInstance/containerGroups'' content)
         \<and> \<not> sublist ''accessPolicies'' content
      then [finding file_path access_policy_warning] else [])
     @ (if sublist ''Microsoft.Web/sites'' content \<and> \<not> sublist ''vnetRouteAllEnabled'' content
        then [finding file_path vnet_warning] else [])"

definition file_errors :: "string \<Rightarrow> string \<Rightarrow> string list" where
  "file_errors content file_path =
     security_errors content file_path @ hardcoded_errors content file_path"

definition file_warnings :: "string \<Rightarrow> string \<Rightarrow> string list" where
  "file_warnings content file_path =
     security_warnings content file_path
     @ concat (map (declaration_warnings file_path (declared_name content))
                 (re_findall resource_pattern no_flags content))
     @ dependency_warnings content file_path"

section \<open>What the patterns accept, said without the matcher\<close>

text \<open>A character that has no other letter case and is no lower-case letter.\<close>

definition caseless :: "char \<Rightarrow> bool" where
  "caseless x = (\<not> between 65 90 x \<and> \<not> between 97 122 x \<and> \<not> between 192 254 x)"

text \<open>
  The form shared by the five patterns of \<^verbatim>\<open>hardcoded_patterns\<close>: a keyword, an
  assignment sign later on the same line, a quote later on that line, at least \<open>k\<close>
  characters other than quotes, and a quote.
\<close>

definition shape :: "string \<Rightarrow> nat \<Rightarrow> regex" where
  "shape kw k =
     seqs [lit kw, star any, Atom assign, star any, Atom quote, Rep no_quote k None, Atom quote]"

definition quoted_after :: "string \<Rightarrow> nat \<Rightarrow> string \<Rightarrow> string \<Rightarrow> bool" where
  "quoted_after kw k s t \<longleftrightarrow>
     (\<exists>w m1 a m2 q1 body q2.
        s = w @ m1 @ [a] @ m2 @ [q1] @ body @ [q2] @ t
        \<and> map lower w = map lower kw
        \<and> CHR 0x0A \<notin> set m1 \<and> (a = CHR '':'' \<or> a = CHR ''='')
        \<and> CHR 0x0A \<notin> set m2 \<and> (q1 = sq \<or> q1 = dq)
        \<and> k \<le> length body \<and> sq \<notin> set body \<and> dq \<notin> set body
        \<and> (q2 = sq \<or> q2 = dq))"

text \<open>
  The text holds, somewhere, the keyword in any letter case, then on the same line
  \<^verbatim>\<open>:\<close> or \<^verbatim>\<open>=\<close>, then on the same line a quote character, at least \<open>k\<close>
  characters none of which is a quote character, and a quote character.
\<close>

definition quoted_literal_after :: "string \<Rightarrow> nat \<Rightarrow> string \<Rightarrow> bool" where
  "quoted_literal_after kw k content \<longleftrightarrow>
     (\<exists>pre w m1 a m2 q1 body q2 post.
        content = pre @ w @ m1 @ [a] @ m2 @ [q1] @ body @ [q2] @ post
        \<and> map lower w = map lower kw
        \<and> CHR 0x0A \<notin> set m1 \<and> (a = CHR '':'' \<or> a = CHR ''='')
        \<and> CHR 0x0A \<notin> set m2 \<and> (q1 = sq \<or> q1 = dq)
        \<and> k \<le> length body \<and> sq \<notin> set body \<and> dq \<notin> set body
        \<and> (q2 = sq \<or> q2 = dq))"

definition name_at :: "string \<Rightarrow> string \<Rightarrow> string \<Rightarrow> string \<Rightarrow> bool" where
  "name_at s ws v t \<longleftrightarrow>
     s = ''name:'' @ ws @ [sq] @ v @ [sq] @ t \<and> (\<forall>c\<in>set ws. is_space c) \<and> v \<noteq> []
     \<and> sq \<notin> set v"

text \<open>
  After the prefix \<open>pre\<close> the text goes on with \<^verbatim>\<open>name:\<close>, white space if any,
  and the non-empty text \<open>v\<close> between two single quotes.
\<close>

definition name_occurrence :: "string \<Rightarrow> string \<Rightarrow> string \<Rightarrow> bool" where
  "name_occurrence content pre v \<longleftrightarrow>
     (\<exists>ws post. content = pre @ ''name:'' @ ws @ [sq] @ v @ [sq] @ post
        \<and> (\<forall>c\<in>set ws. is_space c) \<and> v \<noteq> [] \<and> sq \<notin> set v)"




text \<open>Patterns made of literals and \<^verbatim>\<open>.\<close> only, as those of the security rules are.\<close>

fun ci_atom :: "atom \<Rightarrow> bool" where
  "ci_atom (Chr a) = True"
| "ci_atom Dot = True"
| "ci_atom (Set neg items) = False"

fun ci_regex :: "regex \<Rightarrow> bool" where
  "ci_regex Eps = True"
| "ci_regex (Atom a) = ci_atom a"
| "ci_regex Bol = False"
| "ci_regex Eol = False"
| "ci_regex (Seq r1 r2) = (ci_regex r1 \<and> ci_regex r2)"
| "ci_regex (Alt r1 r2) = (ci_regex r1 \<and> ci_regex r2)"
| "ci_regex (Rep a lo hi) = ci_atom a"
| "ci_regex (Grp k r) = False"

definition lower_config :: "config \<Rightarrow> config" where
  "lower_config cfg = (map lower (fst cfg), snd cfg)"

section \<open>Example templates and file systems\<close>

definition nl :: string where
  "nl = [CHR 0x0A]"

definition clean_template :: string where
  "clean_template = ''supportsHttpsTrafficOnly httpsOnly true''"

definition open_nsg_template :: string where
  "open_nsg_template = ''securityRules access Allow * *''"

definition two_files :: filesystem where
  "two_files p =
     (if p = ''clean.bicep'' then Inr clean_template
      else if p = ''nsg.bicep'' then Inr open_nsg_template
      else Inl (''[Errno 2] No such file or directory: '' @ [sq] @ p @ [sq]))"

definition nsg_rule :: security_rule where
  "nsg_rule = snd (security_rules ! 4)"

definition kv_web_template :: string where
  "kv_web_template = ''Microsoft.KeyVault/vaults Microsoft.Web/sites''"

definition kv_web_policies_template :: string where
  "kv_web_policies_template = kv_web_template @ '' accessPolicies''"

definition lower_case_template :: string where
  "lower_case_template =
     ''Microsoft.KeyVault/vaults microsoft.web/sites Microsoft.ContainerInstance/containerGroups''
     @ '' accesspolicies''"

text \<open>A template with one storage-account declaration, whose name is the parameter.\<close>

definition storage_type :: string where
  "storage_type = ''Microsoft.Storage/storageAccounts''"

definition storage_template :: "string \<Rightarrow> string" where
  "storage_template name =
     ''resource sa '' @ [sq] @ storage_type @ [sq] @ '' = {'' @ nl
     @ ''  name: '' @ [sq] @ name @ [sq] @ nl @ ''}''"

text \<open>A storage account named \<^verbatim>\<open>st123\<close>, then a key vault named \<^verbatim>\<open>kv-main\<close>.\<close>

definition two_resources_template :: string where
  "two_resources_template =
     storage_template ''st123'' @ nl
     @ ''resource kv '' @ [sq] @ ''Microsoft.KeyVault/vaults'' @ [sq] @ '' = {'' @ nl
     @ ''  name: '' @ [sq] @ ''kv-main'' @ [sq] @ nl @ ''}''"

definition assignment :: "string \<Rightarrow> string \<Rightarrow> string" where
  "assignment key literal = key @ '' = '' @ [dq] @ literal @ [dq]"

definition https_rule :: security_rule where
  "https_rule = snd (security_rules ! 2)"

definition upper_case_https :: string where
  "upper_case_https = ''HTTPSONLY: TRUE''"

section \<open>Each check appends to the two lists and changes nothing else\<close>

lemma extend_nil [simp]: "extend [] [] st = st"
  by (simp add: extend_def)

lemma extend_extend [simp]: "extend es' ws' (extend es ws st) = extend (es @ es') (ws @ ws') st"
  by (simp add: extend_def)

lemma extend_sel [simp]:
  "errors (extend es ws st) = errors st @ es"
  "warnings (extend es ws st) = warnings st @ ws"
  "stdout (extend es ws st) = stdout st"
  "opened (extend es ws st) = opened st"
  by (simp_all add: extend_def)

lemma extend_upd [simp]:
  "extend es ws (st\<lparr>opened := x\<rparr>) = (extend es ws st)\<lparr>opened := x\<rparr>"
  "extend es ws (st\<lparr>stdout := y\<rparr>) = (extend es ws st)\<lparr>stdout := y\<rparr>"
  by (simp_all add: extend_def)

lemma add_error_extend: "add_error m st = extend [m] [] st"
  by (simp add: add_error_def extend_def)

lemma add_warning_extend: "add_warning m st = extend [] [m] st"
  by (simp add: add_warning_def extend_def)

lemma record_finding_extend:
  "record_finding sev m st = (if sev = ''error'' then extend [m] [] st else extend [] [m] st)"
  by (simp add: record_finding_def add_error_extend add_warning_extend)

lemma foldl_extend:
  assumes "\<And>st x. step st x = extend (e x) (w x) st"
  shows "foldl step st xs = extend (concat (map e xs)) (concat (map w xs)) st"
  by (induction xs arbitrary: st) (simp_all add: assms)

lemma concat_map_if:
  "concat (map (\<lambda>x. if P x then [g x] else []) xs) = map g (filter P xs)"
  by (induction xs) simp_all

lemma check_rule_extend:
  "check_rule content p st rule =
     extend (if rule_violated content rule \<and> severity rule = ''error''
             then [finding p (message rule)] else [])
            (if rule_violated content rule \<and> severity rule \<noteq> ''error''
             then [finding p (message rule)] else []) st"
  by (simp add: check_rule_def rule_violated_def record_finding_extend Let_def)

lemma check_security_rules_extend:
  "check_security_rules content p st =
     extend (security_errors content p) (security_warnings content p) st"
proof -
  have "foldl (check_rule content p) st xs =
        extend (concat (map (\<lambda>r. if rule_violated content r \<and> severity r = ''error''
                                    then [finding p (message r)] else []) xs))
               (concat (map (\<lambda>r. if rule_violated content r \<and> severity r \<noteq> ''error''
                                    then [finding p (message r)] else []) xs)) st" for xs
    by (rule foldl_extend) (rule check_rule_extend)
  then show ?thesis
    by (simp add: check_security_rules_def security_errors_def security_warnings_def
          concat_map_if)
qed

lemma check_declaration_extend:
  "check_declaration content p st d =
     extend [] (declaration_warnings p (declared_name content) d) st"
  by (cases d)
     (simp add: check_declaration_def declaration_warnings_def rule_for_type_def
        declared_name_def add_warning_extend Let_def split: option.splits)

lemma check_naming_extend:
  "check_naming_conventions content p st =
     extend [] (concat (map (declaration_warnings p (declared_name content))
                          (re_findall resource_pattern no_flags content))) st"
proof -
  have "foldl (check_declaration content p) st xs =
        extend (concat (map (\<lambda>_. []) xs))
               (concat (map (declaration_warnings p (declared_name content)) xs)) st" for xs
    by (rule foldl_extend) (rule check_declaration_extend)
  then show ?thesis
    by (simp add: check_naming_conventions_def Let_def)
qed

lemma check_hardcoded_extend:
  "check_hardcoded content p st pm =
     extend (if found (re_search (fst pm) ic content) then [finding p (snd pm)] else []) [] st"
  by (cases pm) (simp add: check_hardcoded_def add_error_extend)

lemma check_hardcoded_values_extend:
  "check_hardcoded_values content p st = extend (hardcoded_errors content p) [] st"
proof -
  have "foldl (check_hardcoded content p) st xs =
        extend (concat (map (\<lambda>pm. if found (re_search (fst pm) ic content)
                                     then [finding p (snd pm)] else []) xs))
               (concat (map (\<lambda>_. []) xs)) st" for xs
    by (rule foldl_extend) (rule check_hardcoded_extend)
  then show ?thesis
    by (simp add: check_hardcoded_values_def hardcoded_errors_def concat_map_if)
qed

lemma check_resource_dependencies_extend:
  "check_resource_dependencies content p st = extend [] (dependency_warnings content p) st"
  by (simp add: check_resource_dependencies_def dependency_warnings_def add_warning_extend
        access_policy_warning_def vnet_warning_def Let_def)

lemma check_file_read:
  "fs p = Inr content \<Longrightarrow>
     check_file fs p st =
       (errors st = [] \<and> file_errors content p = [],
        (extend (file_errors content p) (file_warnings content p) st)
          \<lparr>stdout := stdout st @ [Line (''Checking '' @ p @ ''...'')],
           opened := opened st @ [p]\<rparr>)"
  by (simp add: check_file_def Let_def print_def check_security_rules_extend
        check_naming_extend check_hardcoded_values_extend check_resource_dependencies_extend
        file_errors_def file_warnings_def extend_def)

lemma check_file_fail:
  "fs p = Inl reason \<Longrightarrow>
     check_file fs p st =
       (False, (extend [''Error reading '' @ p @ '': '' @ reason] [] st)
                 \<lparr>opened := opened st @ [p]\<rparr>)"
  by (simp add: check_file_def Let_def add_error_def extend_def)

lemma check_file_errors:
  "errors (snd (check_file fs p st)) = errors st @ errors (snd (check_file fs p init))"
  by (cases "fs p") (simp_all add: check_file_read check_file_fail init_def)

lemma check_file_warnings:
  "warnings (snd (check_file fs p st)) = warnings st @ warnings (snd (check_file fs p init))"
  by (cases "fs p") (simp_all add: check_file_read check_file_fail init_def)




section \<open>The run\<close>

lemma print_sel:
  "errors (print l st) = errors st"
  "warnings (print l st) = warnings st"
  "opened (print l st) = opened st"
  by (simp_all add: print_def)

lemma foldl_print:
  "foldl (\<lambda>s l. print l s) st ls = st\<lparr>stdout := stdout st @ ls\<rparr>"
  by (induction ls arbitrary: st) (simp_all add: print_def)

lemma foldl_print_line:
  "foldl (\<lambda>s e. print (g e) s) st es = st\<lparr>stdout := stdout st @ map g es\<rparr>"
  by (induction es arbitrary: st) (simp_all add: print_def)

lemma print_results_fst: "fst (print_results st) = (errors st = [])"
  by (simp add: print_results_def Let_def)

lemma print_results_snd:
  "errors (snd (print_results st)) = errors st"
  "warnings (snd (print_results st)) = warnings st"
  "opened (snd (print_results st)) = opened st"
  by (simp_all add: print_results_def Let_def foldl_print_line print_sel)

lemma print_results_clean:
  "errors st = [] \<Longrightarrow> warnings st = [] \<Longrightarrow>
     print_results st = (True, st\<lparr>stdout := stdout st @ [All_passed]\<rparr>)"
  by (simp add: print_results_def Let_def print_def)

lemma main_loop_skip:
  "filter (suffix ''.bicep'') args = [] \<Longrightarrow> foldl (main_step fs) acc args = acc"
proof (induction args arbitrary: acc)
  case Nil
  then show ?case by simp
next
  case (Cons p ps)
  then show ?case by (cases acc) (simp add: main_step_def split: if_splits)
qed

lemma main_step_opened:
  "opened (snd (main_step fs (b, st) p)) = opened st @ (if suffix ''.bicep'' p then [p] else [])"
  by (cases "fs p") (simp_all add: main_step_def check_file_read check_file_fail)

lemma main_loop_opened:
  "opened (snd (foldl (main_step fs) (b, st) args)) = opened st @ filter (suffix ''.bicep'') args"
proof (induction args arbitrary: b st)
  case Nil
  then show ?case by simp
next
  case (Cons p ps)
  obtain b' st' where s: "main_step fs (b, st) p = (b', st')"
    by (cases "main_step fs (b, st) p")
  from main_step_opened [of fs b st p] s
  have "opened st' = opened st @ (if suffix ''.bicep'' p then [p] else [])" by simp
  with Cons.IH [of b' st'] s show ?case by simp
qed

lemma main_exit:
  "fst (main fs argv) =
     (if length argv < 2 then 1 else if errors (snd (main fs argv)) = [] then 0 else 1)"
proof (cases "length argv < 2")
  case True
  then show ?thesis by (simp add: main_def)
next
  case False
  obtain b st where l: "foldl (main_step fs) (True, init) (drop 1 argv) = (b, st)"
    by (cases "foldl (main_step fs) (True, init) (drop 1 argv)")
  obtain ok st' where p: "print_results st = (ok, st')"
    by (cases "print_results st")
  from p print_results_fst [of st] have ok: "ok = (errors st = [])" by simp
  from p print_results_snd(1) [of st] have e: "errors st' = errors st" by simp
  from False l p ok e show ?thesis
    by (simp add: main_def foldl_print)
qed

lemma catalog_severity:
  "(name, rule) \<in> set security_rules \<Longrightarrow>
     severity rule = ''error'' \<or> severity rule = ''warning''"
  by (auto simp: security_rules_def)

section \<open>Messages are told apart\<close>

lemma finding_inject: "finding p a = finding p b \<longleftrightarrow> a = b"
  by (simp add: finding_def)

lemma dependency_messages_differ: "access_policy_warning \<noteq> vnet_warning"
  by (simp add: access_policy_warning_def vnet_warning_def)

lemma hardcoded_messages_distinct: "distinct (map snd hardcoded_patterns)"
  by (simp add: hardcoded_patterns_def)

lemma count_list_map_filter:
  assumes "distinct (map h xs)" and "inj g" and "x \<in> set xs"
  shows "count_list (map (\<lambda>y. g (h y)) (filter P xs)) (g (h x)) = (if P x then 1 else 0)"
  using assms
proof (induction xs)
  case Nil
  then show ?case by simp
next
  case (Cons y ys)
  have inj: "g a = g b \<longleftrightarrow> a = b" for a b
    using Cons.prems(2) by (auto dest: injD)
  show ?case
  proof (cases "x = y")
    case True
    with Cons.prems(1) have "h x \<notin> h ` set ys" by simp
    then have "count_list (map (\<lambda>y. g (h y)) (filter P ys)) (g (h x)) = 0"
      by (auto simp: count_list_0_iff inj)
    with True show ?thesis by simp
  next
    case False
    with Cons.prems have x: "x \<in> set ys" and d: "distinct (map h ys)" and ne: "h y \<noteq> h x"
      by auto
    from Cons.IH [OF d Cons.prems(2) x] ne show ?thesis
      by (simp add: inj)
  qed
qed

lemma inj_finding: "inj (finding p)"
  by (rule injI) (simp add: finding_inject)

section \<open>The matcher, construct by construct\<close>

subsection \<open>Repetition, atoms, sequences\<close>

lemma rep_ends_set:
  "set (rep_ends ok lo hi s) =
     (\<lambda>k. drop k s) ` {k. lo \<le> k \<and> k \<le> length (takeWhile ok s) \<and> (\<forall>h. hi = Some h \<longrightarrow> k \<le> h)}"
proof -
  have "{lo..<Suc (case hi of None \<Rightarrow> length (takeWhile ok s)
                              | Some h \<Rightarrow> min h (length (takeWhile ok s)))}
        = {k. lo \<le> k \<and> k \<le> length (takeWhile ok s) \<and> (\<forall>h. hi = Some h \<longrightarrow> k \<le> h)}"
    by (cases hi) auto
  then show ?thesis
    by (simp add: rep_ends_def Let_def del: upt_Suc)
qed

lemma rep_ends_index:
  "t \<in> set (rep_ends ok lo hi s) \<longleftrightarrow>
     (\<exists>k. lo \<le> k \<and> k \<le> length (takeWhile ok s) \<and> (\<forall>h. hi = Some h \<longrightarrow> k \<le> h)
          \<and> t = drop k s)"
  unfolding rep_ends_set by auto

lemma take_takeWhile:
  "k \<le> length (takeWhile ok s) \<Longrightarrow> \<forall>c\<in>set (take k s). ok c"
proof (induction s arbitrary: k)
  case Nil
  then show ?case by simp
next
  case (Cons a s)
  then show ?case
    by (cases k) (auto split: if_splits)
qed

lemma rep_ends_iff:
  "t \<in> set (rep_ends ok lo hi s) \<longleftrightarrow>
     (\<exists>w. s = w @ t \<and> lo \<le> length w \<and> (\<forall>h. hi = Some h \<longrightarrow> length w \<le> h)
          \<and> (\<forall>c\<in>set w. ok c))"
proof
  assume "t \<in> set (rep_ends ok lo hi s)"
  then obtain k where k: "lo \<le> k" "k \<le> length (takeWhile ok s)"
      "\<forall>h. hi = Some h \<longrightarrow> k \<le> h" "t = drop k s"
    unfolding rep_ends_index by blast
  have le: "k \<le> length s"
    using k(2) length_takeWhile_le [of ok s] by (rule order_trans)
  have "s = take k s @ t" using k(4) by simp
  moreover have "length (take k s) = k" using le by simp
  moreover have "\<forall>c\<in>set (take k s). ok c" using k(2) by (rule take_takeWhile)
  ultimately show "\<exists>w. s = w @ t \<and> lo \<le> length w \<and> (\<forall>h. hi = Some h \<longrightarrow> length w \<le> h)
          \<and> (\<forall>c\<in>set w. ok c)"
    using k(1,3) by (intro exI [of _ "take k s"]) simp
next
  assume "\<exists>w. s = w @ t \<and> lo \<le> length w \<and> (\<forall>h. hi = Some h \<longrightarrow> length w \<le> h)
          \<and> (\<forall>c\<in>set w. ok c)"
  then obtain w where w: "s = w @ t" "lo \<le> length w" "\<forall>h. hi = Some h \<longrightarrow> length w \<le> h"
      "\<forall>c\<in>set w. ok c"
    by blast
  have "takeWhile ok s = w @ takeWhile ok t"
    using w(1,4) by (simp add: takeWhile_append2)
  then have "length w \<le> length (takeWhile ok s)" by simp
  moreover have "t = drop (length w) s" using w(1) by simp
  ultimately show "t \<in> set (rep_ends ok lo hi s)"
    unfolding rep_ends_index using w(2,3) by blast
qed

lemma rmatch_Atom:
  "(t, g') \<in> set (rmatch (Atom a) f n (s, g)) \<longleftrightarrow> (\<exists>c. s = c # t \<and> atom_ok f a c \<and> g' = g)"
  by (cases s) auto

lemma rmatch_Seq:
  "cfg' \<in> set (rmatch (Seq r1 r2) f n cfg) \<longleftrightarrow>
     (\<exists>mid \<in> set (rmatch r1 f n cfg). cfg' \<in> set (rmatch r2 f n mid))"
  by auto

lemma rmatch_Rep:
  "(t, g') \<in> set (rmatch (Rep a lo hi) f n (s, g)) \<longleftrightarrow>
     g' = g \<and> (\<exists>w. s = w @ t \<and> lo \<le> length w \<and> (\<forall>h. hi = Some h \<longrightarrow> length w \<le> h)
                  \<and> (\<forall>c\<in>set w. atom_ok f a c))"
  by (auto simp: rep_ends_iff image_iff)

lemma rmatch_Grp:
  "(t, g') \<in> set (rmatch (Grp k r) f n (s, g)) \<longleftrightarrow>
     (\<exists>g''. (t, g'') \<in> set (rmatch r f n (s, g)) \<and> g' = g''(k \<mapsto> take (length s - length t) s))"
  by (force simp: image_iff)

lemma rmatch_seqs_Nil: "rmatch (seqs []) f n cfg = [cfg]"
  by (simp add: seqs_def)

lemma rmatch_seqs_Cons:
  "cfg' \<in> set (rmatch (seqs (r # rs)) f n cfg) \<longleftrightarrow>
     (\<exists>mid \<in> set (rmatch r f n cfg). cfg' \<in> set (rmatch (seqs rs) f n mid))"
  by (simp add: seqs_def)

lemma rmatch_lit:
  "(t, g') \<in> set (rmatch (lit kw) f n (s, g)) \<longleftrightarrow>
     g' = g \<and> (\<exists>w. s = w @ t \<and> list_all2 (\<lambda>a c. atom_ok f (Chr a) c) kw w)"
proof (induction kw arbitrary: s)
  case Nil
  then show ?case by (auto simp: lit_def seqs_def)
next
  case (Cons a kw)
  have "(t, g') \<in> set (rmatch (lit (a # kw)) f n (s, g)) \<longleftrightarrow>
        (\<exists>mid \<in> set (rmatch (Atom (Chr a)) f n (s, g)). (t, g') \<in> set (rmatch (lit kw) f n mid))"
    by (simp add: lit_def seqs_def)
  also have "\<dots> \<longleftrightarrow> (\<exists>c s'. s = c # s' \<and> atom_ok f (Chr a) c \<and> (t, g') \<in> set (rmatch (lit kw) f n (s', g)))"
    by (cases s) (auto simp del: atom_ok.simps)
  also have "\<dots> \<longleftrightarrow> g' = g \<and> (\<exists>w. s = w @ t \<and> list_all2 (\<lambda>a c. atom_ok f (Chr a) c) (a # kw) w)"
    unfolding Cons.IH
    by (auto simp: list_all2_Cons1 simp del: atom_ok.simps)
  finally show ?case .
qed

subsection \<open>Searching\<close>

lemma search_from_found:
  "found (search_from r f n s) \<longleftrightarrow> (\<exists>pre t. s = pre @ t \<and> found (match_here r f n t))"
proof (induction s)
  case Nil
  then show ?case by (simp add: found_def)
next
  case (Cons c s)
  have "found (search_from r f n (c # s)) \<longleftrightarrow>
        found (match_here r f n (c # s)) \<or> found (search_from r f n s)"
    by (simp add: found_def split: option.splits)
  also have "\<dots> \<longleftrightarrow> (\<exists>pre t. c # s = pre @ t \<and> found (match_here r f n t))"
    unfolding Cons.IH
    by (auto simp: Cons_eq_append_conv)
  finally show ?case .
qed

lemma found_match_here:
  "found (match_here r f n s) \<longleftrightarrow> (\<exists>cfg. cfg \<in> set (rmatch r f n (s, Map.empty)))"
  by (cases "rmatch r f n (s, Map.empty)") (auto simp: found_def match_here_def)

lemma found_re_search:
  "found (re_search r f s) \<longleftrightarrow>
     (\<exists>pre t cfg. s = pre @ t \<and> cfg \<in> set (rmatch r f (length s) (t, Map.empty)))"
  by (simp add: re_search_def search_from_found found_match_here)

subsection \<open>Characters and letter case\<close>

lemma code_nat: "code c = int (of_char c)"
  by (simp add: code_def of_nat_of_char)

lemma code_bounds: "0 \<le> code c" "code c < 256"
  by (simp_all add: code_nat)

lemma code_char_of: "0 \<le> n \<Longrightarrow> n < 256 \<Longrightarrow> code (char_of n) = n"
  by (simp add: code_def)

lemma lower_caseless: "caseless x \<Longrightarrow> lower c = x \<longleftrightarrow> c = x"
proof -
  assume x: "caseless x"
  show ?thesis
  proof (cases "between 65 90 c \<or> between 192 214 c \<or> between 216 222 c")
    case True
    then have l: "lower c = char_of (code c + 32)" by (simp add: lower_def)
    from True have "code (char_of (code c + 32)) = code c + 32"
      by (intro code_char_of) (auto simp: between_def)
    with True l have "between 97 122 (lower c) \<or> between 192 254 (lower c)"
      by (auto simp: between_def)
    with x True show ?thesis by (auto simp: caseless_def between_def)
  next
    case False
    then show ?thesis by (simp add: lower_def)
  qed
qed

lemma caseless_chars: "caseless sq" "caseless dq" "caseless CHR '':''" "caseless CHR ''=''"
  by (simp_all add: caseless_def between_def code_def sq_def dq_def)

lemma atom_ok_quote: "atom_ok ic quote c \<longleftrightarrow> c = sq \<or> c = dq"
  by (auto simp: quote_def in_items_def ic_def lower_caseless caseless_chars)

lemma atom_ok_no_quote: "atom_ok ic no_quote c \<longleftrightarrow> c \<noteq> sq \<and> c \<noteq> dq"
  by (auto simp: no_quote_def in_items_def ic_def lower_caseless caseless_chars)

lemma atom_ok_assign: "atom_ok ic assign c \<longleftrightarrow> c = CHR '':'' \<or> c = CHR ''=''"
  by (auto simp: assign_def in_items_def ic_def lower_caseless caseless_chars)

lemma atom_ok_any: "atom_ok ic any c \<longleftrightarrow> c \<noteq> CHR 0x0A"
  by (simp add: any_def ic_def)

lemma atom_ok_Chr_ic: "atom_ok ic (Chr a) c \<longleftrightarrow> lower c = lower a"
  by (simp add: ic_def)

lemma list_all2_map_eq:
  "list_all2 (\<lambda>a c. h c = h a) xs ys \<longleftrightarrow> map h ys = map h xs"
proof (induction xs arbitrary: ys)
  case Nil
  then show ?case by simp
next
  case (Cons x xs)
  then show ?case by (cases ys) auto
qed

subsection \<open>The patterns for hardcoded values\<close>

lemma seq_step_atom:
  assumes "\<And>s. (t, g') \<in> set (rmatch (seqs rs) f n (s, g)) \<longleftrightarrow> g' = g \<and> P s"
  shows "(t, g') \<in> set (rmatch (seqs (Atom a # rs)) f n (s, g)) \<longleftrightarrow>
           g' = g \<and> (\<exists>c s'. s = c # s' \<and> atom_ok f a c \<and> P s')"
  unfolding rmatch_seqs_Cons Bex_def split_paired_Ex rmatch_Atom
  using assms by blast

lemma seq_step_rep:
  assumes "\<And>s. (t, g') \<in> set (rmatch (seqs rs) f n (s, g)) \<longleftrightarrow> g' = g \<and> P s"
  shows "(t, g') \<in> set (rmatch (seqs (Rep a lo hi # rs)) f n (s, g)) \<longleftrightarrow>
           g' = g \<and> (\<exists>w s'. s = w @ s' \<and> lo \<le> length w
                        \<and> (\<forall>h. hi = Some h \<longrightarrow> length w \<le> h)
                        \<and> (\<forall>c\<in>set w. atom_ok f a c) \<and> P s')"
  unfolding rmatch_seqs_Cons Bex_def split_paired_Ex rmatch_Rep
  using assms by blast

lemma seq_step_lit:
  assumes "\<And>s. (t, g') \<in> set (rmatch (seqs rs) f n (s, g)) \<longleftrightarrow> g' = g \<and> P s"
  shows "(t, g') \<in> set (rmatch (seqs (lit kw # rs)) f n (s, g)) \<longleftrightarrow>
           g' = g \<and> (\<exists>w s'. s = w @ s' \<and> list_all2 (\<lambda>a c. atom_ok f (Chr a) c) kw w \<and> P s')"
  unfolding rmatch_seqs_Cons Bex_def split_paired_Ex rmatch_lit
  using assms by blast

lemma seq_step_nil:
  "(t, g') \<in> set (rmatch (seqs []) f n (s, g)) \<longleftrightarrow> g' = g \<and> s = t"
  by (auto simp: rmatch_seqs_Nil)

lemma rmatch_shape:
  "(t, g') \<in> set (rmatch (shape kw k) ic n (s, g)) \<longleftrightarrow> g' = g \<and> quoted_after kw k s t"
proof -
  define P7 where "P7 = (\<lambda>s6. \<exists>q2 s7. s6 = q2 # s7 \<and> (q2 = sq \<or> q2 = dq) \<and> s7 = t)"
  define P6 where "P6 = (\<lambda>s5. \<exists>body s6. s5 = body @ s6 \<and> k \<le> length body
                      \<and> (\<forall>c\<in>set body. c \<noteq> sq \<and> c \<noteq> dq) \<and> P7 s6)"
  define P5 where "P5 = (\<lambda>s4. \<exists>q1 s5. s4 = q1 # s5 \<and> (q1 = sq \<or> q1 = dq) \<and> P6 s5)"
  define P4 where "P4 = (\<lambda>s3. \<exists>m2 s4. s3 = m2 @ s4 \<and> (\<forall>c\<in>set m2. c \<noteq> CHR 0x0A) \<and> P5 s4)"
  define P3 where "P3 = (\<lambda>s2. \<exists>a s3. s2 = a # s3 \<and> (a = CHR '':'' \<or> a = CHR ''='') \<and> P4 s3)"
  define P2 where "P2 = (\<lambda>s1. \<exists>m1 s2. s1 = m1 @ s2 \<and> (\<forall>c\<in>set m1. c \<noteq> CHR 0x0A) \<and> P3 s2)"
  define P1 where "P1 = (\<lambda>s. \<exists>w s1. s = w @ s1 \<and> map lower w = map lower kw \<and> P2 s1)"
  note steps = seq_step_lit [OF seq_step_rep [OF seq_step_atom [OF seq_step_rep
                 [OF seq_step_atom [OF seq_step_rep [OF seq_step_atom [OF seq_step_nil]]]]]]]
  have "(t, g') \<in> set (rmatch (shape kw k) ic n (s, g)) \<longleftrightarrow> g' = g \<and> P1 s"
    unfolding shape_def star_def P1_def P2_def P3_def P4_def P5_def P6_def P7_def
    by (simp only: steps atom_ok_quote atom_ok_no_quote atom_ok_assign atom_ok_any
          atom_ok_Chr_ic list_all2_map_eq) simp
  also have "P1 s \<longleftrightarrow> quoted_after kw k s t"
  proof
    assume "P1 s"
    then obtain w s1 where 1: "s = w @ s1" "map lower w = map lower kw" "P2 s1"
      unfolding P1_def by blast
    from 1(3) obtain m1 s2 where 2: "s1 = m1 @ s2" "\<forall>c\<in>set m1. c \<noteq> CHR 0x0A" "P3 s2"
      unfolding P2_def by blast
    from 2(3) obtain a s3 where 3: "s2 = a # s3" "a = CHR '':'' \<or> a = CHR ''=''" "P4 s3"
      unfolding P3_def by blast
    from 3(3) obtain m2 s4 where 4: "s3 = m2 @ s4" "\<forall>c\<in>set m2. c \<noteq> CHR 0x0A" "P5 s4"
      unfolding P4_def by blast
    from 4(3) obtain q1 s5 where 5: "s4 = q1 # s5" "q1 = sq \<or> q1 = dq" "P6 s5"
      unfolding P5_def by blast
    from 5(3) obtain body s6 where 6: "s5 = body @ s6" "k \<le> length body"
        "\<forall>c\<in>set body. c \<noteq> sq \<and> c \<noteq> dq" "P7 s6"
      unfolding P6_def by blast
    from 6(4) obtain q2 where 7: "s6 = q2 # t" "q2 = sq \<or> q2 = dq"
      unfolding P7_def by blast
    have e: "s = w @ m1 @ [a] @ m2 @ [q1] @ body @ [q2] @ t"
      using 1(1) 2(1) 3(1) 4(1) 5(1) 6(1) 7(1) by simp
    have n: "CHR 0x0A \<notin> set m1" "CHR 0x0A \<notin> set m2" "sq \<notin> set body" "dq \<notin> set body"
      using 2(2) 4(2) 6(3) by blast+
    have c: "s = w @ m1 @ [a] @ m2 @ [q1] @ body @ [q2] @ t
        \<and> map lower w = map lower kw
        \<and> CHR 0x0A \<notin> set m1 \<and> (a = CHR '':'' \<or> a = CHR ''='')
        \<and> CHR 0x0A \<notin> set m2 \<and> (q1 = sq \<or> q1 = dq)
        \<and> k \<le> length body \<and> sq \<notin> set body \<and> dq \<notin> set body
        \<and> (q2 = sq \<or> q2 = dq)"
      using e n 1(2) 3(2) 5(2) 6(2) 7(2) by blast
    show "quoted_after kw k s t"
      unfolding quoted_after_def
      by (rule exI [of _ w], rule exI [of _ m1], rule exI [of _ a], rule exI [of _ m2],
          rule exI [of _ q1], rule exI [of _ body], rule exI [of _ q2], rule c)
  next
    assume "quoted_after kw k s t"
    then obtain w m1 a m2 q1 body q2 where f:
      "s = w @ m1 @ [a] @ m2 @ [q1] @ body @ [q2] @ t" "map lower w = map lower kw"
      "CHR 0x0A \<notin> set m1" "a = CHR '':'' \<or> a = CHR ''=''"
      "CHR 0x0A \<notin> set m2" "q1 = sq \<or> q1 = dq" "k \<le> length body"
      "sq \<notin> set body" "dq \<notin> set body" "q2 = sq \<or> q2 = dq"
      unfolding quoted_after_def by (elim exE conjE)
    have 7: "P7 ([q2] @ t)"
      unfolding P7_def using f(10) by simp
    have b: "\<forall>c\<in>set body. c \<noteq> sq \<and> c \<noteq> dq"
      using f(8,9) by blast
    have 6: "P6 (body @ [q2] @ t)"
      unfolding P6_def using f(7) b 7 by blast
    have 5: "P5 ([q1] @ body @ [q2] @ t)"
      unfolding P5_def using f(6) 6 by simp
    have m: "\<forall>c\<in>set m2. c \<noteq> CHR 0x0A" "\<forall>c\<in>set m1. c \<noteq> CHR 0x0A"
      using f(3,5) by blast+
    have 4: "P4 (m2 @ [q1] @ body @ [q2] @ t)"
      unfolding P4_def using m(1) 5 by blast
    have 3: "P3 ([a] @ m2 @ [q1] @ body @ [q2] @ t)"
      unfolding P3_def using f(4) 4 by simp
    have 2: "P2 (m1 @ [a] @ m2 @ [q1] @ body @ [q2] @ t)"
      unfolding P2_def using m(2) 3 by blast
    show "P1 s"
      unfolding P1_def using f(1,2) 2 by blast
  qed
  finally show ?thesis .
qed

lemma quoted_literal_after_iff:
  "quoted_literal_after kw k content \<longleftrightarrow> (\<exists>pre s t. content = pre @ s \<and> quoted_after kw k s t)"
  unfolding quoted_literal_after_def quoted_after_def by blast

lemma found_shape:
  "found (re_search (shape kw k) ic content) \<longleftrightarrow> quoted_literal_after kw k content"
  unfolding found_re_search quoted_literal_after_iff split_paired_Ex rmatch_shape by blast

lemma hardcoded_patterns_shape:
  "map fst hardcoded_patterns
     = [shape ''password'' 8, shape ''connectionString'' 1, shape ''apiKey'' 1,
        shape ''secret'' 1, shape ''token'' 1]"
  by (simp add: hardcoded_patterns_def shape_def keyword_literal_def plus_def)

lemma hardcoded_found:
  "map (\<lambda>pm. found (re_search (fst pm) ic content)) hardcoded_patterns
     = [quoted_literal_after ''password'' 8 content,
        quoted_literal_after ''connectionString'' 1 content,
        quoted_literal_after ''apiKey'' 1 content,
        quoted_literal_after ''secret'' 1 content,
        quoted_literal_after ''token'' 1 content]"
proof -
  have "map (\<lambda>pm. found (re_search (fst pm) ic content)) hardcoded_patterns
        = map (\<lambda>r. found (re_search r ic content)) (map fst hardcoded_patterns)"
    by (simp add: comp_def)
  then show ?thesis
    by (simp only: hardcoded_patterns_shape list.map found_shape)
qed

subsection \<open>The pattern for the declared name\<close>

lemma seq_atom:
  assumes "\<And>s g. cfg' \<in> set (rmatch (seqs rs) f n (s, g)) \<longleftrightarrow> Q s g"
  shows "cfg' \<in> set (rmatch (seqs (Atom a # rs)) f n (s, g)) \<longleftrightarrow>
           (\<exists>c s'. s = c # s' \<and> atom_ok f a c \<and> Q s' g)"
  unfolding rmatch_seqs_Cons Bex_def split_paired_Ex rmatch_Atom
  using assms by blast

lemma seq_rep:
  assumes "\<And>s g. cfg' \<in> set (rmatch (seqs rs) f n (s, g)) \<longleftrightarrow> Q s g"
  shows "cfg' \<in> set (rmatch (seqs (Rep a lo hi # rs)) f n (s, g)) \<longleftrightarrow>
           (\<exists>w s'. s = w @ s' \<and> lo \<le> length w \<and> (\<forall>h. hi = Some h \<longrightarrow> length w \<le> h)
                   \<and> (\<forall>c\<in>set w. atom_ok f a c) \<and> Q s' g)"
  unfolding rmatch_seqs_Cons Bex_def split_paired_Ex rmatch_Rep
  using assms by blast

lemma seq_lit:
  assumes "\<And>s g. cfg' \<in> set (rmatch (seqs rs) f n (s, g)) \<longleftrightarrow> Q s g"
  shows "cfg' \<in> set (rmatch (seqs (lit kw # rs)) f n (s, g)) \<longleftrightarrow>
           (\<exists>w s'. s = w @ s' \<and> list_all2 (\<lambda>a c. atom_ok f (Chr a) c) kw w \<and> Q s' g)"
  unfolding rmatch_seqs_Cons Bex_def split_paired_Ex rmatch_lit
  using assms by blast

lemma rmatch_Grp_Rep:
  "(t, g') \<in> set (rmatch (Grp k (Rep a lo hi)) f n (s, g)) \<longleftrightarrow>
     (\<exists>w. s = w @ t \<and> lo \<le> length w \<and> (\<forall>h. hi = Some h \<longrightarrow> length w \<le> h)
          \<and> (\<forall>c\<in>set w. atom_ok f a c) \<and> g' = g(k \<mapsto> w))"
  unfolding rmatch_Grp rmatch_Rep by auto

lemma seq_grp_rep:
  assumes "\<And>s g. cfg' \<in> set (rmatch (seqs rs) f n (s, g)) \<longleftrightarrow> Q s g"
  shows "cfg' \<in> set (rmatch (seqs (Grp k (Rep a lo hi) # rs)) f n (s, g)) \<longleftrightarrow>
           (\<exists>w s'. s = w @ s' \<and> lo \<le> length w \<and> (\<forall>h. hi = Some h \<longrightarrow> length w \<le> h)
                   \<and> (\<forall>c\<in>set w. atom_ok f a c) \<and> Q s' (g(k \<mapsto> w)))"
  unfolding rmatch_seqs_Cons Bex_def split_paired_Ex rmatch_Grp_Rep
  using assms by blast

lemma seq_nil:
  "cfg' \<in> set (rmatch (seqs []) f n (s, g)) \<longleftrightarrow> cfg' = (s, g)"
  by (auto simp: rmatch_seqs_Nil)

lemma atom_ok_plain:
  "atom_ok no_flags (Chr a) c \<longleftrightarrow> c = a"
  "atom_ok no_flags (Set True [Single a]) c \<longleftrightarrow> c \<noteq> a"
  "atom_ok no_flags (Set False [Space_class]) c \<longleftrightarrow> is_space c"
  "atom_ok no_flags (Set False [Word_class]) c \<longleftrightarrow> is_word c"
  by (auto simp: no_flags_def in_items_def)

lemma list_all2_eq_flip: "list_all2 (\<lambda>a c. c = a) kw w \<longleftrightarrow> w = kw"
  using list_all2_map_eq [of id kw w] by simp

lemma rmatch_name_pattern:
  "(t, g') \<in> set (rmatch name_pattern no_flags n (s, g)) \<longleftrightarrow>
     (\<exists>ws v. name_at s ws v t \<and> g' = g(1 \<mapsto> v))"
proof -
  define P4 where "P4 = (\<lambda>s4 g4. \<exists>c s5. s4 = c # s5 \<and> c = sq \<and> (t, g') = (s5, g4))"
  define P3 where "P3 = (\<lambda>s3 g3. \<exists>v s4. s3 = v @ s4 \<and> 1 \<le> length v
                      \<and> (\<forall>c\<in>set v. c \<noteq> sq) \<and> P4 s4 (g3(1 \<mapsto> v)))"
  define P2 where "P2 = (\<lambda>s2 g2. \<exists>c s3. s2 = c # s3 \<and> c = sq \<and> P3 s3 g2)"
  define P1 where "P1 = (\<lambda>s1 g1. \<exists>ws s2. s1 = ws @ s2 \<and> (\<forall>c\<in>set ws. is_space c) \<and> P2 s2 g1)"
  define P0 where "P0 = (\<lambda>s0 g0. \<exists>w s1. s0 = w @ s1 \<and> w = ''name:'' \<and> P1 s1 g0)"
  note steps = seq_lit [OF seq_rep [OF seq_atom [OF seq_grp_rep [OF seq_atom [OF seq_nil]]]]]
  have "(t, g') \<in> set (rmatch name_pattern no_flags n (s, g)) \<longleftrightarrow> P0 s g"
    unfolding name_pattern_def star_def plus_def P0_def P1_def P2_def P3_def P4_def
    by (simp only: steps atom_ok_plain list_all2_eq_flip) simp
  also have "P0 s g \<longleftrightarrow> (\<exists>ws v. name_at s ws v t \<and> g' = g(1 \<mapsto> v))"
  proof
    assume "P0 s g"
    then obtain s1 where 0: "s = ''name:'' @ s1" "P1 s1 g"
      unfolding P0_def by blast
    from 0(2) obtain ws s2 where 1: "s1 = ws @ s2" "\<forall>c\<in>set ws. is_space c" "P2 s2 g"
      unfolding P1_def by blast
    from 1(3) obtain s3 where 2: "s2 = sq # s3" "P3 s3 g"
      unfolding P2_def by blast
    from 2(2) obtain v s4 where 3: "s3 = v @ s4" "1 \<le> length v" "\<forall>c\<in>set v. c \<noteq> sq"
        "P4 s4 (g(1 \<mapsto> v))"
      unfolding P3_def by blast
    from 3(4) have 4: "s4 = sq # t" "g' = g(1 \<mapsto> v)"
      unfolding P4_def by auto
    have "name_at s ws v t"
      unfolding name_at_def using 0(1) 1(1,2) 2(1) 3(1,2,3) 4(1) by auto
    with 4(2) show "\<exists>ws v. name_at s ws v t \<and> g' = g(1 \<mapsto> v)" by blast
  next
    assume "\<exists>ws v. name_at s ws v t \<and> g' = g(1 \<mapsto> v)"
    then obtain ws v where f: "s = ''name:'' @ ws @ [sq] @ v @ [sq] @ t"
        "\<forall>c\<in>set ws. is_space c" "v \<noteq> []" "sq \<notin> set v" "g' = g(1 \<mapsto> v)"
      unfolding name_at_def by blast
    have 4: "P4 ([sq] @ t) (g(1 \<mapsto> v))"
      unfolding P4_def using f(5) by simp
    have l: "1 \<le> length v" "\<forall>c\<in>set v. c \<noteq> sq"
      using f(3,4) by (auto simp: Suc_le_eq)
    have 3: "P3 (v @ [sq] @ t) g"
      unfolding P3_def using l 4 by blast
    have 2: "P2 ([sq] @ v @ [sq] @ t) g"
      unfolding P2_def using 3 by simp
    have 1: "P1 (ws @ [sq] @ v @ [sq] @ t) g"
      unfolding P1_def using f(2) 2 by blast
    show "P0 s g"
      unfolding P0_def using f(1) 1 by blast
  qed
  finally show ?thesis .
qed

lemma first_split_unique:
  "xs @ a # ys = xs' @ a # ys' \<Longrightarrow> a \<notin> set xs \<Longrightarrow> a \<notin> set xs' \<Longrightarrow> xs = xs' \<and> ys = ys'"
proof (induction xs arbitrary: xs')
  case Nil
  then show ?case by (cases xs') auto
next
  case (Cons x xs)
  then show ?case by (cases xs') auto
qed

lemma not_space_sq: "\<not> is_space sq"
  by (simp add: is_space_def between_def code_def sq_def)

lemma name_at_unique:
  assumes "name_at s ws v t" and "name_at s ws' v' t'"
  shows "ws = ws' \<and> v = v' \<and> t = t'"
proof -
  from assms have e: "ws @ sq # (v @ sq # t) = ws' @ sq # (v' @ sq # t')"
    by (simp add: name_at_def)
  from assms have n: "sq \<notin> set ws" "sq \<notin> set ws'" "sq \<notin> set v" "sq \<notin> set v'"
    using not_space_sq by (auto simp: name_at_def)
  from first_split_unique [OF e n(1,2)] have w: "ws = ws'" and r: "v @ sq # t = v' @ sq # t'"
    by simp_all
  from first_split_unique [OF r n(3,4)] w show ?thesis by simp
qed

lemma first_of_unique:
  assumes "\<And>x y. x \<in> set l \<Longrightarrow> y \<in> set l \<Longrightarrow> x = y"
  shows "(case l of [] \<Rightarrow> None | x # _ \<Rightarrow> Some x) = Some c \<longleftrightarrow> c \<in> set l"
proof (cases l)
  case Nil
  then show ?thesis by simp
next
  case (Cons x xs)
  with assms [of x c] assms [of c x] show ?thesis by auto
qed

lemma match_here_name_pattern:
  "match_here name_pattern no_flags n s = Some (t, g') \<longleftrightarrow>
     (\<exists>ws v. name_at s ws v t \<and> g' = [1 \<mapsto> v])"
proof -
  have u: "x = y" if "x \<in> set (rmatch name_pattern no_flags n (s, Map.empty))"
      "y \<in> set (rmatch name_pattern no_flags n (s, Map.empty))" for x y
  proof -
    obtain t1 g1 t2 g2 where xy: "x = (t1, g1)" "y = (t2, g2)"
      by (cases x, cases y) blast
    from that xy have m: "(t1, g1) \<in> set (rmatch name_pattern no_flags n (s, Map.empty))"
        "(t2, g2) \<in> set (rmatch name_pattern no_flags n (s, Map.empty))"
      by simp_all
    from m(1) obtain ws1 v1 where a: "name_at s ws1 v1 t1" "g1 = [1 \<mapsto> v1]"
      unfolding rmatch_name_pattern by blast
    from m(2) obtain ws2 v2 where b: "name_at s ws2 v2 t2" "g2 = [1 \<mapsto> v2]"
      unfolding rmatch_name_pattern by blast
    note a b
    with name_at_unique [of s ws1 v1 t1 ws2 v2 t2] xy show ?thesis by simp
  qed
  have "match_here name_pattern no_flags n s = Some (t, g') \<longleftrightarrow>
        (t, g') \<in> set (rmatch name_pattern no_flags n (s, Map.empty))"
    unfolding match_here_def by (rule first_of_unique) (rule u)
  then show ?thesis
    by (simp only: rmatch_name_pattern)
qed

lemma match_here_None:
  "match_here r f n s = None \<longleftrightarrow> rmatch r f n (s, Map.empty) = []"
  by (simp add: match_here_def split: list.splits)

lemma search_from_Some:
  "search_from r f n s = Some cfg \<longleftrightarrow>
     (\<exists>pre t. s = pre @ t \<and> match_here r f n t = Some cfg
        \<and> (\<forall>pre' t'. s = pre' @ t' \<and> length pre' < length pre \<longrightarrow> match_here r f n t' = None))"
proof (induction s)
  case Nil
  then show ?case by auto
next
  case (Cons c s)
  show ?case
  proof (cases "match_here r f n (c # s)")
    case (Some x)
    have "(\<exists>pre t. c # s = pre @ t \<and> match_here r f n t = Some cfg
        \<and> (\<forall>pre' t'. c # s = pre' @ t' \<and> length pre' < length pre \<longrightarrow> match_here r f n t' = None))
        \<longleftrightarrow> x = cfg"
    proof
      assume "\<exists>pre t. c # s = pre @ t \<and> match_here r f n t = Some cfg
        \<and> (\<forall>pre' t'. c # s = pre' @ t' \<and> length pre' < length pre \<longrightarrow> match_here r f n t' = None)"
      then obtain pre t where p: "c # s = pre @ t" "match_here r f n t = Some cfg"
        "\<forall>pre' t'. c # s = pre' @ t' \<and> length pre' < length pre \<longrightarrow> match_here r f n t' = None"
        by blast
      have "pre = []"
      proof (rule ccontr)
        assume "pre \<noteq> []"
        then have "c # s = [] @ (c # s) \<and> length ([]::string) < length pre" by simp
        with p(3) have "match_here r f n (c # s) = None" by blast
        with Some show False by simp
      qed
      with p(1,2) Some show "x = cfg" by simp
    next
      assume "x = cfg"
      with Some have "c # s = [] @ (c # s) \<and> match_here r f n (c # s) = Some cfg
        \<and> (\<forall>pre' t'. c # s = pre' @ t' \<and> length pre' < length ([]::string)
               \<longrightarrow> match_here r f n t' = None)"
        by simp
      then show "\<exists>pre t. c # s = pre @ t \<and> match_here r f n t = Some cfg
        \<and> (\<forall>pre' t'. c # s = pre' @ t' \<and> length pre' < length pre \<longrightarrow> match_here r f n t' = None)"
        by blast
    qed
    with Some show ?thesis by simp
  next
    case None
    have "(\<exists>pre t. c # s = pre @ t \<and> match_here r f n t = Some cfg
        \<and> (\<forall>pre' t'. c # s = pre' @ t' \<and> length pre' < length pre \<longrightarrow> match_here r f n t' = None))
        \<longleftrightarrow> (\<exists>pre t. s = pre @ t \<and> match_here r f n t = Some cfg
        \<and> (\<forall>pre' t'. s = pre' @ t' \<and> length pre' < length pre \<longrightarrow> match_here r f n t' = None))"
    proof
      assume "\<exists>pre t. c # s = pre @ t \<and> match_here r f n t = Some cfg
        \<and> (\<forall>pre' t'. c # s = pre' @ t' \<and> length pre' < length pre \<longrightarrow> match_here r f n t' = None)"
      then obtain pre t where p: "c # s = pre @ t" "match_here r f n t = Some cfg"
        "\<forall>pre' t'. c # s = pre' @ t' \<and> length pre' < length pre \<longrightarrow> match_here r f n t' = None"
        by blast
      from p(1,2) None obtain pre0 where q: "pre = c # pre0" "s = pre0 @ t"
        by (cases pre) auto
      have "match_here r f n t' = None" if "s = pre' @ t'" "length pre' < length pre0" for pre' t'
      proof -
        from that q have "c # s = (c # pre') @ t' \<and> length (c # pre') < length pre" by simp
        with p(3) show ?thesis by blast
      qed
      with q(2) p(2) show "\<exists>pre t. s = pre @ t \<and> match_here r f n t = Some cfg
        \<and> (\<forall>pre' t'. s = pre' @ t' \<and> length pre' < length pre \<longrightarrow> match_here r f n t' = None)"
        by blast
    next
      assume "\<exists>pre t. s = pre @ t \<and> match_here r f n t = Some cfg
        \<and> (\<forall>pre' t'. s = pre' @ t' \<and> length pre' < length pre \<longrightarrow> match_here r f n t' = None)"
      then obtain pre t where p: "s = pre @ t" "match_here r f n t = Some cfg"
        "\<forall>pre' t'. s = pre' @ t' \<and> length pre' < length pre \<longrightarrow> match_here r f n t' = None"
        by blast
      have "match_here r f n t' = None"
        if "c # s = pre' @ t'" "length pre' < length (c # pre)" for pre' t'
      proof (cases pre')
        case Nil
        with that(1) None show ?thesis by simp
      next
        case (Cons a pre'')
        with that have "s = pre'' @ t' \<and> length pre'' < length pre" by simp
        with p(3) show ?thesis by blast
      qed
      moreover have "c # s = (c # pre) @ t" using p(1) by simp
      ultimately show "\<exists>pre t. c # s = pre @ t \<and> match_here r f n t = Some cfg
        \<and> (\<forall>pre' t'. c # s = pre' @ t' \<and> length pre' < length pre \<longrightarrow> match_here r f n t' = None)"
        using p(2) by blast
    qed
    with None Cons.IH show ?thesis by simp
  qed
qed

lemma name_occurrence_iff:
  "name_occurrence content pre v \<longleftrightarrow> (\<exists>s ws t. content = pre @ s \<and> name_at s ws v t)"
  unfolding name_occurrence_def name_at_def by blast

lemma match_here_name_Some:
  "(\<exists>cfg. match_here name_pattern no_flags n s = Some cfg \<and> group_text cfg 1 = v)
     \<longleftrightarrow> (\<exists>ws t. name_at s ws v t)"
proof
  assume "\<exists>cfg. match_here name_pattern no_flags n s = Some cfg \<and> group_text cfg 1 = v"
  then obtain t g' where m: "match_here name_pattern no_flags n s = Some (t, g')"
      "group_text (t, g') 1 = v"
    by (metis surj_pair)
  from m(1) obtain ws v' where a: "name_at s ws v' t" "g' = [1 \<mapsto> v']"
    unfolding match_here_name_pattern by blast
  from a(2) m(2) have "v' = v" by (simp add: group_text_def group_def)
  with a(1) show "\<exists>ws t. name_at s ws v t" by blast
next
  assume "\<exists>ws t. name_at s ws v t"
  then obtain ws t where "name_at s ws v t" by blast
  then have "match_here name_pattern no_flags n s = Some (t, [1 \<mapsto> v])"
    unfolding match_here_name_pattern by blast
  moreover have "group_text (t, [1 \<mapsto> v]) 1 = v"
    by (simp add: group_text_def group_def)
  ultimately show "\<exists>cfg. match_here name_pattern no_flags n s = Some cfg \<and> group_text cfg 1 = v"
    by blast
qed

lemma match_here_name_None:
  "match_here name_pattern no_flags n s = None \<longleftrightarrow> (\<forall>ws v t. \<not> name_at s ws v t)"
proof -
  have "match_here name_pattern no_flags n s \<noteq> None \<longleftrightarrow>
        (\<exists>v cfg. match_here name_pattern no_flags n s = Some cfg \<and> group_text cfg 1 = v)"
    by auto
  also have "\<dots> \<longleftrightarrow> (\<exists>v ws t. name_at s ws v t)"
    unfolding match_here_name_Some ..
  finally show ?thesis by blast
qed

lemma declared_name_first:
  "declared_name content = Some v \<longleftrightarrow>
     (\<exists>pre. name_occurrence content pre v
        \<and> (\<forall>pre' v'. name_occurrence content pre' v' \<longrightarrow> length pre \<le> length pre'))"
proof -
  let ?n = "length content"
  have "declared_name content = Some v \<longleftrightarrow>
        (\<exists>cfg. search_from name_pattern no_flags ?n content = Some cfg \<and> group_text cfg 1 = v)"
    by (auto simp: declared_name_def re_search_def)
  also have "\<dots> \<longleftrightarrow>
        (\<exists>pre t. content = pre @ t
           \<and> (\<exists>cfg. match_here name_pattern no_flags ?n t = Some cfg \<and> group_text cfg 1 = v)
           \<and> (\<forall>pre' t'. content = pre' @ t' \<and> length pre' < length pre
                 \<longrightarrow> match_here name_pattern no_flags ?n t' = None))"
    unfolding search_from_Some by blast
  also have "\<dots> \<longleftrightarrow>
        (\<exists>pre t. content = pre @ t \<and> (\<exists>ws t2. name_at t ws v t2)
           \<and> (\<forall>pre' t'. content = pre' @ t' \<and> length pre' < length pre
                 \<longrightarrow> (\<forall>ws v' t2. \<not> name_at t' ws v' t2)))"
    unfolding match_here_name_Some match_here_name_None ..
  also have "\<dots> \<longleftrightarrow>
        (\<exists>pre. name_occurrence content pre v
           \<and> (\<forall>pre' v'. name_occurrence content pre' v' \<longrightarrow> length pre \<le> length pre'))"
    unfolding name_occurrence_iff
    by (metis linorder_not_less)
  finally show ?thesis .
qed

lemma declared_name_None:
  "declared_name content = None \<longleftrightarrow> (\<forall>pre v. \<not> name_occurrence content pre v)"
proof
  assume n: "declared_name content = None"
  show "\<forall>pre v. \<not> name_occurrence content pre v"
  proof (intro allI notI)
    fix pre v
    assume o: "name_occurrence content pre v"
    define P where "P = (\<lambda>k. \<exists>pre v. name_occurrence content pre v \<and> length pre = k)"
    from o have "P (length pre)" unfolding P_def by blast
    then have l: "P (LEAST k. P k)"
      by (rule LeastI)
    have m: "(LEAST k. P k) \<le> k" if "P k" for k
      using that by (rule Least_le)
    from l obtain pre0 v0 where p: "name_occurrence content pre0 v0" "length pre0 = (LEAST k. P k)"
      unfolding P_def by blast
    have "length pre0 \<le> length pre'" if "name_occurrence content pre' v'" for pre' v'
    proof -
      from that have "P (length pre')" unfolding P_def by blast
      from m [OF this] p(2) show ?thesis by simp
    qed
    then have "\<forall>pre' v'. name_occurrence content pre' v' \<longrightarrow> length pre0 \<le> length pre'"
      by blast
    with p(1) have "declared_name content = Some v0"
      unfolding declared_name_first by blast
    with n show False by simp
  qed
next
  assume a: "\<forall>pre v. \<not> name_occurrence content pre v"
  show "declared_name content = None"
  proof (cases "declared_name content")
    case None
    then show ?thesis .
  next
    case (Some v)
    then have "\<exists>pre. name_occurrence content pre v"
      unfolding declared_name_first by blast
    with a show ?thesis by blast
  qed
qed

subsection \<open>The pattern for storage-account names\<close>










subsection \<open>Matching that ignores case\<close>

lemma lower_idem: "lower (lower c) = lower c"
proof (cases "between 65 90 c \<or> between 192 214 c \<or> between 216 222 c")
  case True
  then have l: "lower c = char_of (code c + 32)" by (simp add: lower_def)
  from True have "code (char_of (code c + 32)) = code c + 32"
    by (intro code_char_of) (auto simp: between_def)
  with True l have "\<not> (between 65 90 (lower c) \<or> between 192 214 (lower c) \<or> between 216 222 (lower c))"
    by (auto simp: between_def)
  then show ?thesis by (simp add: lower_def [of "lower c"])
next
  case False
  then show ?thesis by (simp add: lower_def)
qed

lemma atom_ok_lower: "ci_atom a \<Longrightarrow> atom_ok ic_dotall a (lower c) = atom_ok ic_dotall a c"
  by (cases a) (simp_all add: ic_dotall_def lower_idem)

lemma rep_ends_map:
  assumes "\<And>c. ok (h c) = ok c"
  shows "rep_ends ok lo hi (map h s) = map (map h) (rep_ends ok lo hi s)"
proof -
  have "ok \<circ> h = ok" using assms by (simp add: fun_eq_iff)
  then have "length (takeWhile ok (map h s)) = length (takeWhile ok s)"
    by (simp add: takeWhile_map)
  then show ?thesis
    by (simp add: rep_ends_def Let_def drop_map comp_def del: upt_Suc)
qed

lemma rmatch_lower:
  "ci_regex r \<Longrightarrow>
     rmatch r ic_dotall n (map lower s, g) = map lower_config (rmatch r ic_dotall n (s, g))"
proof (induction r arbitrary: s g)
  case Eps
  then show ?case by (simp add: lower_config_def)
next
  case (Atom a)
  then show ?case by (cases s) (simp_all add: lower_config_def atom_ok_lower)
next
  case Bol
  then show ?case by simp
next
  case Eol
  then show ?case by simp
next
  case (Seq r1 r2)
  then have c: "ci_regex r1" "ci_regex r2" by simp_all
  have s2: "rmatch r2 ic_dotall n (lower_config cfg) = map lower_config (rmatch r2 ic_dotall n cfg)"
    for cfg
    using Seq.IH(2) [OF c(2), of "fst cfg" "snd cfg"] by (simp add: lower_config_def)
  show ?case
    by (simp add: Seq.IH(1) [OF c(1)] map_concat comp_def s2)
next
  case (Alt r1 r2)
  then show ?case by simp
next
  case (Rep a lo hi)
  then have "rep_ends (atom_ok ic_dotall a) lo hi (map lower s)
             = map (map lower) (rep_ends (atom_ok ic_dotall a) lo hi s)"
    by (intro rep_ends_map atom_ok_lower) simp
  then show ?case by (simp add: lower_config_def comp_def)
next
  case (Grp k r)
  then show ?case by simp
qed

lemma match_here_lower:
  "ci_regex r \<Longrightarrow>
     found (match_here r ic_dotall n (map lower s)) = found (match_here r ic_dotall n s)"
proof -
  assume c: "ci_regex r"
  have "found (match_here r ic_dotall n t) \<longleftrightarrow> rmatch r ic_dotall n (t, Map.empty) \<noteq> []" for t
    by (cases "rmatch r ic_dotall n (t, Map.empty)") (simp_all add: found_def match_here_def)
  then show ?thesis
    by (simp add: rmatch_lower [OF c])
qed

lemma search_from_lower:
  "ci_regex r \<Longrightarrow>
     found (search_from r ic_dotall n (map lower s)) = found (search_from r ic_dotall n s)"
proof (induction s)
  case Nil
  then show ?case by simp
next
  case (Cons c s)
  have "found (search_from r ic_dotall n (x # xs)) \<longleftrightarrow>
        found (match_here r ic_dotall n (x # xs)) \<or> found (search_from r ic_dotall n xs)" for x xs
    by (simp add: found_def split: option.splits)
  with Cons match_here_lower [of r n "c # s"] show ?case by simp
qed

lemma re_search_lower:
  "ci_regex r \<Longrightarrow> found (re_search r ic_dotall (map lower s)) = found (re_search r ic_dotall s)"
  using search_from_lower [of r "length s" s] by (simp add: re_search_def)

lemma ci_lit: "ci_regex (lit kw)"
  by (induction kw) (simp_all add: lit_def seqs_def)

lemma ci_seqs: "ci_regex (seqs rs) \<longleftrightarrow> (\<forall>r\<in>set rs. ci_regex r)"
  by (induction rs) (simp_all add: seqs_def)

lemma catalog_ci: "(name, rule) \<in> set security_rules \<Longrightarrow> ci_regex (pattern rule)"
  by (auto simp: security_rules_def ci_seqs ci_lit star_def any_def)

lemma security_match_ignores_case:
  assumes "(name, rule) \<in> set security_rules" and "map lower c1 = map lower c2"
  shows "found (re_search (pattern rule) ic_dotall c1) = found (re_search (pattern rule) ic_dotall c2)"
  using re_search_lower [OF catalog_ci [OF assms(1)], of c1]
        re_search_lower [OF catalog_ci [OF assms(1)], of c2] assms(2)
  by simp

section \<open>The security pass as a whole\<close>

lemma catalog_messages_distinct: "distinct (map message (map snd security_rules))"
  by (simp add: security_rules_def)

lemma security_counts:
  assumes "rule \<in> set (map snd security_rules)"
  shows "count_list (security_errors content p) (finding p (message rule))
           = (if rule_violated content rule \<and> severity rule = ''error'' then 1 else 0)"
    and "count_list (security_warnings content p) (finding p (message rule))
           = (if rule_violated content rule \<and> severity rule \<noteq> ''error'' then 1 else 0)"
  unfolding security_errors_def security_warnings_def
  using count_list_map_filter [OF catalog_messages_distinct inj_finding assms, of p]
  by simp_all

lemma security_findings_from_catalog:
  "set (security_errors content p) \<union> set (security_warnings content p)
     \<subseteq> (\<lambda>r. finding p (message r)) ` set (map snd security_rules)"
  by (auto simp: security_errors_def security_warnings_def)

lemma check_rule_cases:
  assumes "rule \<in> set (map snd security_rules)"
  shows "(let st' = check_rule content file_path st rule;
              matched = found (re_search (pattern rule) ic_dotall content);
              msg = finding file_path (message rule)
          in (get_flag (invert rule) \<longrightarrow>
                (matched \<longrightarrow> records_one (severity rule) msg st st')
                \<and> (\<not> matched \<longrightarrow> st' = st))
           \<and> (\<not> get_flag (invert rule) \<and> get_flag (required rule) \<longrightarrow>
                (\<not> matched \<longrightarrow> records_one (severity rule) msg st st')
                \<and> (matched \<longrightarrow> st' = st))
           \<and> (\<not> get_flag (invert rule) \<and> \<not> get_flag (required rule) \<longrightarrow> st' = st))"
proof -
  from assms obtain name where "(name, rule) \<in> set security_rules" by auto
  then have sev: "severity rule = ''error'' \<or> severity rule = ''warning''"
    by (rule catalog_severity)
  have one: "records_one (severity rule) m st (record_finding (severity rule) m st)" for m
    using sev by (auto simp: records_one_def record_finding_def add_error_def add_warning_def)
  show ?thesis
    using one by (simp add: check_rule_def Let_def)
qed

section \<open>The errors of a run\<close>

lemma main_step_errors:
  "errors (snd (main_step fs (b, st) p))
     = errors st @ (if suffix ''.bicep'' p then errors (snd (check_file fs p init)) else [])"
  using check_file_errors [of fs p st]
  by (auto simp: main_step_def split: prod.splits)

lemma main_step_warnings:
  "warnings (snd (main_step fs (b, st) p))
     = warnings st @ (if suffix ''.bicep'' p then warnings (snd (check_file fs p init)) else [])"
  using check_file_warnings [of fs p st]
  by (auto simp: main_step_def split: prod.splits)

lemma main_loop_errors:
  "errors (snd (foldl (main_step fs) (b, st) args))
     = errors st @ concat (map (\<lambda>p. errors (snd (check_file fs p init)))
                            (filter (suffix ''.bicep'') args))"
proof (induction args arbitrary: b st)
  case Nil
  then show ?case by simp
next
  case (Cons p ps)
  obtain b' st' where s: "main_step fs (b, st) p = (b', st')"
    by (cases "main_step fs (b, st) p")
  from main_step_errors [of fs b st p] s
  have "errors st' = errors st
          @ (if suffix ''.bicep'' p then errors (snd (check_file fs p init)) else [])"
    by simp
  with Cons.IH [of b' st'] s show ?case by simp
qed

lemma main_loop_warnings:
  "warnings (snd (foldl (main_step fs) (b, st) args))
     = warnings st @ concat (map (\<lambda>p. warnings (snd (check_file fs p init)))
                              (filter (suffix ''.bicep'') args))"
proof (induction args arbitrary: b st)
  case Nil
  then show ?case by simp
next
  case (Cons p ps)
  obtain b' st' where s: "main_step fs (b, st) p = (b', st')"
    by (cases "main_step fs (b, st) p")
  from main_step_warnings [of fs b st p] s
  have "warnings st' = warnings st
          @ (if suffix ''.bicep'' p then warnings (snd (check_file fs p init)) else [])"
    by simp
  with Cons.IH [of b' st'] s show ?case by simp
qed

lemma main_keeps:
  assumes "2 \<le> length argv"
  shows "errors (snd (main fs argv))
           = errors (snd (foldl (main_step fs) (True, init) (drop 1 argv)))"
    and "opened (snd (main fs argv))
           = opened (snd (foldl (main_step fs) (True, init) (drop 1 argv)))"
proof -
  obtain b st where l: "foldl (main_step fs) (True, init) (drop 1 argv) = (b, st)"
    by (cases "foldl (main_step fs) (True, init) (drop 1 argv)")
  obtain ok st' where p: "print_results st = (ok, st')"
    by (cases "print_results st")
  from p print_results_snd [of st] have e: "errors st' = errors st" "opened st' = opened st"
    by simp_all
  from assms l p e show "errors (snd (main fs argv))
           = errors (snd (foldl (main_step fs) (True, init) (drop 1 argv)))"
    by (simp add: main_def foldl_print)
  from assms l p e show "opened (snd (main fs argv))
           = opened (snd (foldl (main_step fs) (True, init) (drop 1 argv)))"
    by (simp add: main_def foldl_print)
qed

lemma main_errors:
  assumes "2 \<le> length argv"
  shows "errors (snd (main fs argv))
           = concat (map (\<lambda>p. errors (snd (check_file fs p init)))
                       (filter (suffix ''.bicep'') (drop 1 argv)))"
    and "opened (snd (main fs argv)) = filter (suffix ''.bicep'') (drop 1 argv)"
  using main_keeps [OF assms, of fs] main_loop_errors [of fs True init "drop 1 argv"]
        main_loop_opened [of fs True init "drop 1 argv"]
  by (simp_all add: init_def)

section \<open>A storage-account declaration\<close>



section \<open>The claims\<close>

text \<open>
  Claim C1, as amended. The exit status is 1, after the usage line alone and with no file
  opened, exactly when \<^verbatim>\<open>sys.argv\<close> holds no argument after the script's name.
  Otherwise it is 0 when the run recorded no error and 1 when it recorded one; warnings
  play no part. In particular a list of arguments of which none ends in
  \<^verbatim>\<open>.bicep\<close> gives the status 0, the line that all checks passed, and no file
  opened.
\<close>

theorem exit_status:
  "fst (main fs argv) =
     (if length argv < 2 then 1 else if errors (snd (main fs argv)) = [] then 0 else 1)
   \<and> (length argv < 2 \<longrightarrow>
        snd (main fs argv) =
          init\<lparr>stdout := [Line ''Usage: python azure-config-check.py <file1> [file2] ...'']\<rparr>)
   \<and> (2 \<le> length argv \<and> filter (suffix ''.bicep'') (drop 1 argv) = [] \<longrightarrow>
        main fs argv = (0, init\<lparr>stdout := [All_passed]\<rparr>))"
proof -
  have a: "snd (main fs argv) =
          init\<lparr>stdout := [Line ''Usage: python azure-config-check.py <file1> [file2] ...'']\<rparr>"
    if "length argv < 2"
    using that by (simp add: main_def print_def init_def)
  have b: "main fs argv = (0, init\<lparr>stdout := [All_passed]\<rparr>)"
    if "2 \<le> length argv" "filter (suffix ''.bicep'') (drop 1 argv) = []"
    using that by (simp add: main_def main_loop_skip print_results_clean init_def)
  from a b main_exit [of fs argv] show ?thesis by blast
qed

theorem exit_status_witness:
  "main two_files [''azure-config-check.py''] =
     (1, init\<lparr>stdout := [Line ''Usage: python azure-config-check.py <file1> [file2] ...'']\<rparr>)
   \<and> main two_files [''azure-config-check.py'', ''README.md'', ''main.tf'']
       = (0, init\<lparr>stdout := [All_passed]\<rparr>)
   \<and> fst (main two_files [''azure-config-check.py'', ''nsg.bicep'']) = 1"
proof -
  have h1: "length [''azure-config-check.py''] < 2" by simp
  have h2: "2 \<le> length [''azure-config-check.py'', ''README.md'', ''main.tf'']
            \<and> filter (suffix ''.bicep'')
                 (drop 1 [''azure-config-check.py'', ''README.md'', ''main.tf'']) = []"
    by code_simp
  have h3: "errors (snd (main two_files [''azure-config-check.py'', ''nsg.bicep''])) \<noteq> []"
    by code_simp
  from exit_status [of two_files "[''azure-config-check.py'']"] h1
  have c1: "main two_files [''azure-config-check.py''] =
     (1, init\<lparr>stdout := [Line ''Usage: python azure-config-check.py <file1> [file2] ...'']\<rparr>)"
    by (simp add: prod_eq_iff)
  from exit_status [of two_files "[''azure-config-check.py'', ''README.md'', ''main.tf'']"] h2
  have c2: "main two_files [''azure-config-check.py'', ''README.md'', ''main.tf'']
            = (0, init\<lparr>stdout := [All_passed]\<rparr>)"
    by blast
  from exit_status [of two_files "[''azure-config-check.py'', ''nsg.bicep'']"] h3
  have c3: "fst (main two_files [''azure-config-check.py'', ''nsg.bicep'']) = 1"
    by simp
  from c1 c2 c3 show ?thesis by simp
qed

text \<open>
  Against C1 as stated: with the single argument \<^verbatim>\<open>README.md\<close> no qualifying file
  is supplied, yet the status is 0 and the line printed is the one for success, not the
  usage line.
\<close>

theorem no_qualifying_file_counterexample:
  "fst (main two_files [''azure-config-check.py'', ''README.md'']) = 0
   \<and> fst (main two_files [''azure-config-check.py'', ''README.md'']) \<noteq> 1
   \<and> stdout (snd (main two_files [''azure-config-check.py'', ''README.md''])) = [All_passed]"
  by code_simp

text \<open>
  Claim C3. The security pass, \<^verbatim>\<open>_check_security_rules\<close>, appends to the errors and
  to the warnings and changes nothing else; every entry it appends is the message of a
  rule of the catalog; and for every text and every rule of the catalog: a rule with
  \<^verbatim>\<open>invert\<close> set records exactly one entry, in the list of its severity, when its
  pattern matches and none when it does not; a rule without \<^verbatim>\<open>invert\<close> and with
  \<^verbatim>\<open>required\<close> set records exactly one entry, in the list of its severity, when
  its pattern does not match and none when it does; a rule with neither records none.
  The same holds of the one pass of the loop that handles the rule.
\<close>

theorem security_rule_semantics:
  "(let new_errors = errors (check_security_rules content file_path init);
        new_warnings = warnings (check_security_rules content file_path init)
    in check_security_rules content file_path st
         = st\<lparr>errors := errors st @ new_errors, warnings := warnings st @ new_warnings\<rparr>
       \<and> set new_errors \<union> set new_warnings
           \<subseteq> (\<lambda>r. finding file_path (message r)) ` set (map snd security_rules)
       \<and> (\<forall>rule \<in> set (map snd security_rules).
            (let matched = found (re_search (pattern rule) ic_dotall content);
                 msg = finding file_path (message rule);
                 one = (if severity rule = ''error''
                        then count_list new_errors msg = 1 \<and> count_list new_warnings msg = 0
                        else count_list new_errors msg = 0 \<and> count_list new_warnings msg = 1);
                 none = (count_list new_errors msg = 0 \<and> count_list new_warnings msg = 0);
                 st' = check_rule content file_path st rule
             in (get_flag (invert rule) \<longrightarrow>
                   (matched \<longrightarrow> one \<and> records_one (severity rule) msg st st')
                   \<and> (\<not> matched \<longrightarrow> none \<and> st' = st))
              \<and> (\<not> get_flag (invert rule) \<and> get_flag (required rule) \<longrightarrow>
                   (\<not> matched \<longrightarrow> one \<and> records_one (severity rule) msg st st')
                   \<and> (matched \<longrightarrow> none \<and> st' = st))
              \<and> (\<not> get_flag (invert rule) \<and> \<not> get_flag (required rule) \<longrightarrow>
                   none \<and> st' = st))))"
proof -
  have e: "errors (check_security_rules content file_path init) = security_errors content file_path"
    and w: "warnings (check_security_rules content file_path init)
            = security_warnings content file_path"
    by (simp_all add: check_security_rules_extend init_def)
  have a: "check_security_rules content file_path st
         = st\<lparr>errors := errors st @ security_errors content file_path,
              warnings := warnings st @ security_warnings content file_path\<rparr>"
    by (simp add: check_security_rules_extend extend_def)
  have c: "(let matched = found (re_search (pattern rule) ic_dotall content);
                 msg = finding file_path (message rule);
                 one = (if severity rule = ''error''
                        then count_list (security_errors content file_path) msg = 1
                             \<and> count_list (security_warnings content file_path) msg = 0
                        else count_list (security_errors content file_path) msg = 0
                             \<and> count_list (security_warnings content file_path) msg = 1);
                 none = (count_list (security_errors content file_path) msg = 0
                         \<and> count_list (security_warnings content file_path) msg = 0);
                 st' = check_rule content file_path st rule
             in (get_flag (invert rule) \<longrightarrow>
                   (matched \<longrightarrow> one \<and> records_one (severity rule) msg st st')
                   \<and> (\<not> matched \<longrightarrow> none \<and> st' = st))
              \<and> (\<not> get_flag (invert rule) \<and> get_flag (required rule) \<longrightarrow>
                   (\<not> matched \<longrightarrow> one \<and> records_one (severity rule) msg st st')
                   \<and> (matched \<longrightarrow> none \<and> st' = st))
              \<and> (\<not> get_flag (invert rule) \<and> \<not> get_flag (required rule) \<longrightarrow>
                   none \<and> st' = st))"
    if r: "rule \<in> set (map snd security_rules)" for rule
    using check_rule_cases [OF r, of content file_path st]
          security_counts [OF r, of content file_path]
    by (simp add: Let_def rule_violated_def)
  show ?thesis
    unfolding Let_def e w
    using a security_findings_from_catalog [of content file_path] c
    unfolding Let_def by blast
qed

theorem security_rule_semantics_witness:
  "nsg_rule \<in> set (map snd security_rules)
   \<and> get_flag (invert nsg_rule)
   \<and> found (re_search (pattern nsg_rule) ic_dotall open_nsg_template)
   \<and> count_list (errors (check_security_rules open_nsg_template ''nsg.bicep'' init))
        ''nsg.bicep: NSG rules should not allow unrestricted access (*:*)'' = 1
   \<and> check_security_rules open_nsg_template ''nsg.bicep'' init
       = init\<lparr>errors := [''nsg.bicep: Storage accounts should require secure transfer (HTTPS)'',
                           ''nsg.bicep: App Services should enforce HTTPS only'',
                           ''nsg.bicep: NSG rules should not allow unrestricted access (*:*)'']\<rparr>
   \<and> records_one ''error'' ''nsg.bicep: NSG rules should not allow unrestricted access (*:*)''
        init (check_rule open_nsg_template ''nsg.bicep'' init nsg_rule)"
proof -
  have m: "nsg_rule \<in> set (map snd security_rules)"
    by (simp add: nsg_rule_def security_rules_def)
  have i: "get_flag (invert nsg_rule)" by code_simp
  have f: "found (re_search (pattern nsg_rule) ic_dotall open_nsg_template)" by code_simp
  have s: "severity nsg_rule = ''error''" by code_simp
  have g: "finding ''nsg.bicep'' (message nsg_rule)
           = ''nsg.bicep: NSG rules should not allow unrestricted access (*:*)''" by code_simp
  have v: "check_security_rules open_nsg_template ''nsg.bicep'' init
       = init\<lparr>errors := [''nsg.bicep: Storage accounts should require secure transfer (HTTPS)'',
                           ''nsg.bicep: App Services should enforce HTTPS only'',
                           ''nsg.bicep: NSG rules should not allow unrestricted access (*:*)'']\<rparr>"
    by code_simp
  note t = security_rule_semantics [of open_nsg_template "''nsg.bicep''" init]
  from t have "\<forall>rule \<in> set (map snd security_rules).
            (let matched = found (re_search (pattern rule) ic_dotall open_nsg_template);
                 msg = finding ''nsg.bicep'' (message rule);
                 one = (if severity rule = ''error''
                        then count_list (errors (check_security_rules open_nsg_template ''nsg.bicep'' init)) msg = 1
                             \<and> count_list (warnings (check_security_rules open_nsg_template ''nsg.bicep'' init)) msg = 0
                        else count_list (errors (check_security_rules open_nsg_template ''nsg.bicep'' init)) msg = 0
                             \<and> count_list (warnings (check_security_rules open_nsg_template ''nsg.bicep'' init)) msg = 1);
                 none = (count_list (errors (check_security_rules open_nsg_template ''nsg.bicep'' init)) msg = 0
                         \<and> count_list (warnings (check_security_rules open_nsg_template ''nsg.bicep'' init)) msg = 0);
                 st' = check_rule open_nsg_template ''nsg.bicep'' init rule
             in (get_flag (invert rule) \<longrightarrow>
                   (matched \<longrightarrow> one \<and> records_one (severity rule) msg init st')
                   \<and> (\<not> matched \<longrightarrow> none \<and> st' = init))
              \<and> (\<not> get_flag (invert rule) \<and> get_flag (required rule) \<longrightarrow>
                   (\<not> matched \<longrightarrow> one \<and> records_one (severity rule) msg init st')
                   \<and> (matched \<longrightarrow> none \<and> st' = init))
              \<and> (\<not> get_flag (invert rule) \<and> \<not> get_flag (required rule) \<longrightarrow>
                   none \<and> st' = init))"
    unfolding Let_def by (elim conjE)
  from bspec [OF this m] i f s g
  have c: "count_list (errors (check_security_rules open_nsg_template ''nsg.bicep'' init))
        ''nsg.bicep: NSG rules should not allow unrestricted access (*:*)'' = 1
     \<and> records_one ''error'' ''nsg.bicep: NSG rules should not allow unrestricted access (*:*)''
        init (check_rule open_nsg_template ''nsg.bicep'' init nsg_rule)"
    by (simp add: Let_def)
  show ?thesis
    by (rule conjI [OF m conjI [OF i conjI [OF f conjI [OF c [THEN conjunct1]
          conjI [OF v c [THEN conjunct2]]]]]])
qed

text \<open>
  Claim C7. When reading a file fails, \<^verbatim>\<open>check_file\<close> returns (it raises
  nothing) with one more error entry, which holds the path and the reason. The loop of
  \<^verbatim>\<open>main\<close> goes on whatever the file system answers: after it, the errors and
  the warnings are those before it followed by every qualifying argument's own entries,
  in the order of the arguments, and every qualifying argument has been opened. So a
  run with two or more words on the command line always ends with a status, holds the
  entries of all its qualifying files, and, when the read of one of them fails, holds
  the entry for that failure and ends with status 1.
\<close>

theorem read_failure_is_recorded_and_not_fatal:
  "(fs file_path = Inl reason \<longrightarrow>
      check_file fs file_path st =
        (False, st\<lparr>errors := errors st @ [''Error reading '' @ file_path @ '': '' @ reason],
                   opened := opened st @ [file_path]\<rparr>))
   \<and> (let st' = snd (foldl (main_step fs) (all_passed, st) args);
            files = filter (suffix ''.bicep'') args
        in errors st' = errors st @ concat (map (\<lambda>p. errors (snd (check_file fs p init))) files)
         \<and> warnings st'
             = warnings st @ concat (map (\<lambda>p. warnings (snd (check_file fs p init))) files)
         \<and> opened st' = opened st @ files)
   \<and> (2 \<le> length argv \<longrightarrow>
        (let files = filter (suffix ''.bicep'') (drop 1 argv)
         in errors (snd (main fs argv))
              = concat (map (\<lambda>p. errors (snd (check_file fs p init))) files)
          \<and> opened (snd (main fs argv)) = files
          \<and> fst (main fs argv) = (if errors (snd (main fs argv)) = [] then 0 else 1)))
   \<and> (fs file_path = Inl reason \<and> file_path \<in> set (filter (suffix ''.bicep'') (drop 1 argv)) \<longrightarrow>
        (''Error reading '' @ file_path @ '': '' @ reason) \<in> set (errors (snd (main fs argv)))
        \<and> fst (main fs argv) = 1)"
proof -
  have a: "check_file fs file_path st =
        (False, st\<lparr>errors := errors st @ [''Error reading '' @ file_path @ '': '' @ reason],
                   opened := opened st @ [file_path]\<rparr>)"
    if "fs file_path = Inl reason"
    using that by (simp add: check_file_fail extend_def)
  have b: "(let st' = snd (foldl (main_step fs) (all_passed, st) args);
            files = filter (suffix ''.bicep'') args
        in errors st' = errors st @ concat (map (\<lambda>p. errors (snd (check_file fs p init))) files)
         \<and> warnings st'
             = warnings st @ concat (map (\<lambda>p. warnings (snd (check_file fs p init))) files)
         \<and> opened st' = opened st @ files)"
    by (simp add: Let_def main_loop_errors main_loop_warnings main_loop_opened)
  have c: "(let files = filter (suffix ''.bicep'') (drop 1 argv)
         in errors (snd (main fs argv))
              = concat (map (\<lambda>p. errors (snd (check_file fs p init))) files)
          \<and> opened (snd (main fs argv)) = files
          \<and> fst (main fs argv) = (if errors (snd (main fs argv)) = [] then 0 else 1))"
    if l: "2 \<le> length argv"
    using main_errors [OF l, of fs] main_exit [of fs argv] l by (simp add: Let_def)
  have d: "(''Error reading '' @ file_path @ '': '' @ reason) \<in> set (errors (snd (main fs argv)))
        \<and> fst (main fs argv) = 1"
    if f: "fs file_path = Inl reason"
      and m: "file_path \<in> set (filter (suffix ''.bicep'') (drop 1 argv))"
  proof -
    from m have "drop 1 argv \<noteq> []" by auto
    then have l: "2 \<le> length argv" by (cases argv) (auto simp: Suc_le_eq)
    from check_file_fail [of fs file_path reason init] f
    have "errors (snd (check_file fs file_path init))
            = [''Error reading '' @ file_path @ '': '' @ reason]"
      by (simp add: init_def)
    with m have i: "(''Error reading '' @ file_path @ '': '' @ reason)
          \<in> set (concat (map (\<lambda>p. errors (snd (check_file fs p init)))
                            (filter (suffix ''.bicep'') (drop 1 argv))))"
      by (auto intro!: bexI [of _ file_path])
    with main_errors(1) [OF l, of fs]
    have e: "(''Error reading '' @ file_path @ '': '' @ reason) \<in> set (errors (snd (main fs argv)))"
      by simp
    then have "errors (snd (main fs argv)) \<noteq> []" by auto
    with main_exit [of fs argv] l have "fst (main fs argv) = 1" by simp
    with e show ?thesis by simp
  qed
  from a b c d show ?thesis by blast
qed

theorem read_failure_witness:
  "two_files ''missing.bicep''
     = Inl (''[Errno 2] No such file or directory: '' @ [sq] @ ''missing.bicep'' @ [sq])
   \<and> ''missing.bicep''
       \<in> set (filter (suffix ''.bicep'')
                (drop 1 [''azure-config-check.py'', ''missing.bicep'', ''notes.txt'', ''nsg.bicep'']))
   \<and> check_file two_files ''missing.bicep'' init =
        (False, init\<lparr>errors := [''Error reading missing.bicep: [Errno 2] No such file or directory: ''
                                   @ [sq] @ ''missing.bicep'' @ [sq]],
                      opened := [''missing.bicep'']\<rparr>)
   \<and> (''Error reading missing.bicep: [Errno 2] No such file or directory: ''
          @ [sq] @ ''missing.bicep'' @ [sq])
       \<in> set (errors (snd (main two_files
                [''azure-config-check.py'', ''missing.bicep'', ''notes.txt'', ''nsg.bicep''])))
   \<and> fst (main two_files [''azure-config-check.py'', ''missing.bicep'', ''notes.txt'', ''nsg.bicep''])
       = 1
   \<and> opened (snd (main two_files
                [''azure-config-check.py'', ''missing.bicep'', ''notes.txt'', ''nsg.bicep'']))
       = [''missing.bicep'', ''nsg.bicep'']
   \<and> errors (snd (main two_files
                [''azure-config-check.py'', ''missing.bicep'', ''notes.txt'', ''nsg.bicep'']))
       = [''Error reading missing.bicep: [Errno 2] No such file or directory: ''
            @ [sq] @ ''missing.bicep'' @ [sq],
          ''nsg.bicep: Storage accounts should require secure transfer (HTTPS)'',
          ''nsg.bicep: App Services should enforce HTTPS only'',
          ''nsg.bicep: NSG rules should not allow unrestricted access (*:*)'']"
proof -
  let ?argv = "[''azure-config-check.py'', ''missing.bicep'', ''notes.txt'', ''nsg.bicep'']"
  let ?reason = "''[Errno 2] No such file or directory: '' @ [sq] @ ''missing.bicep'' @ [sq]"
  have h: "two_files ''missing.bicep'' = Inl ?reason"
    by code_simp
  have m: "''missing.bicep'' \<in> set (filter (suffix ''.bicep'') (drop 1 ?argv))"
    by code_simp
  have l: "2 \<le> length ?argv" by simp
  have f: "filter (suffix ''.bicep'') (drop 1 ?argv) = [''missing.bicep'', ''nsg.bicep'']"
    by code_simp
  have e: "errors (snd (main two_files ?argv))
       = [''Error reading missing.bicep: [Errno 2] No such file or directory: ''
            @ [sq] @ ''missing.bicep'' @ [sq],
          ''nsg.bicep: Storage accounts should require secure transfer (HTTPS)'',
          ''nsg.bicep: App Services should enforce HTTPS only'',
          ''nsg.bicep: NSG rules should not allow unrestricted access (*:*)'']"
    by code_simp
  note t = read_failure_is_recorded_and_not_fatal
             [where fs = two_files and file_path = "''missing.bicep''" and reason = ?reason
                and st = init and argv = ?argv and all_passed = True and args = "[]"]
  from t [THEN conjunct1] h
  have c1: "check_file two_files ''missing.bicep'' init =
        (False, init\<lparr>errors := [''Error reading missing.bicep: [Errno 2] No such file or directory: ''
                                   @ [sq] @ ''missing.bicep'' @ [sq]],
                      opened := [''missing.bicep'']\<rparr>)"
    by (simp add: init_def)
  from t [THEN conjunct2, THEN conjunct2, THEN conjunct2] h m
  have c2: "(''Error reading missing.bicep: [Errno 2] No such file or directory: ''
          @ [sq] @ ''missing.bicep'' @ [sq])
       \<in> set (errors (snd (main two_files ?argv)))
     \<and> fst (main two_files ?argv) = 1"
    by simp
  from t [THEN conjunct2, THEN conjunct2, THEN conjunct1] l
  have c3: "opened (snd (main two_files ?argv)) = [''missing.bicep'', ''nsg.bicep'']"
    unfolding Let_def f by blast
  show ?thesis
    by (rule conjI [OF h conjI [OF m conjI [OF c1 conjI [OF c2 [THEN conjunct1]
          conjI [OF c2 [THEN conjunct2] conjI [OF c3 e]]]]]])
qed

text \<open>
  Claim C8. What one call of \<^verbatim>\<open>check_file\<close> appends to the errors and to the
  warnings is a function of the path and of what the file system holds there: on any
  state it appends exactly the entries, in the same order, that it gives on a fresh
  checker. So a second pass over an unchanged file yields the same entries as the first.
\<close>

theorem findings_independent_of_state:
  "errors (snd (check_file fs file_path st))
     = errors st @ errors (snd (check_file fs file_path init))
   \<and> warnings (snd (check_file fs file_path st))
       = warnings st @ warnings (snd (check_file fs file_path init))"
  by (simp add: check_file_errors [symmetric] check_file_warnings [symmetric])

theorem findings_independent_of_state_witness:
  "errors (snd (check_file two_files ''nsg.bicep'' init))
     = [''nsg.bicep: Storage accounts should require secure transfer (HTTPS)'',
        ''nsg.bicep: App Services should enforce HTTPS only'',
        ''nsg.bicep: NSG rules should not allow unrestricted access (*:*)'']
   \<and> errors (snd (check_file two_files ''nsg.bicep''
                 (snd (check_file two_files ''nsg.bicep'' init))))
       = errors (snd (check_file two_files ''nsg.bicep'' init))
         @ errors (snd (check_file two_files ''nsg.bicep'' init))
   \<and> warnings (snd (check_file two_files ''nsg.bicep''
                   (snd (check_file two_files ''nsg.bicep'' init))))
       = warnings (snd (check_file two_files ''nsg.bicep'' init))
         @ warnings (snd (check_file two_files ''nsg.bicep'' init))"
proof -
  have e: "errors (snd (check_file two_files ''nsg.bicep'' init))
     = [''nsg.bicep: Storage accounts should require secure transfer (HTTPS)'',
        ''nsg.bicep: App Services should enforce HTTPS only'',
        ''nsg.bicep: NSG rules should not allow unrestricted access (*:*)'']"
    by code_simp
  from findings_independent_of_state
         [of two_files "''nsg.bicep''" "snd (check_file two_files ''nsg.bicep'' init)"] e
  show ?thesis by simp
qed



text \<open>
  Claim C6. For every text that holds the Key Vault type and the web-app type or the
  container-group type, and that does not hold \<^verbatim>\<open>accessPolicies\<close>, the dependency
  check appends exactly one warning about access policies (and no error); when the text
  holds \<^verbatim>\<open>accessPolicies\<close> anywhere, that warning is not appended.
\<close>

theorem access_policy_warning_rule:
  "(let new = warnings (check_resource_dependencies content file_path init);
        msg = finding file_path access_policy_warning
    in check_resource_dependencies content file_path st = st\<lparr>warnings := warnings st @ new\<rparr>
       \<and> (sublist ''Microsoft.KeyVault/vaults'' content
            \<and> (sublist ''Microsoft.Web/sites'' content
                 \<or> sublist ''Microsoft.ContainerInstance/containerGroups'' content)
            \<and> \<not> sublist ''accessPolicies'' content
           \<longrightarrow> count_list new msg = 1)
       \<and> (sublist ''accessPolicies'' content \<longrightarrow> msg \<notin> set new))"
  by (simp add: check_resource_dependencies_extend dependency_warnings_def Let_def init_def
        extend_def finding_inject dependency_messages_differ)

theorem access_policy_warning_rule_witness:
  "check_resource_dependencies kv_web_template ''main.bicep'' init =
     init\<lparr>warnings := [''main.bicep: Resources using Key Vault should have proper access policies defined'',
                        ''main.bicep: App Services should consider VNet integration for enhanced security'']\<rparr>
   \<and> count_list (warnings (check_resource_dependencies kv_web_template ''main.bicep'' init))
        (finding ''main.bicep'' access_policy_warning) = 1
   \<and> finding ''main.bicep'' access_policy_warning
       \<notin> set (warnings (check_resource_dependencies kv_web_policies_template ''main.bicep'' init))"
proof -
  have h1: "sublist ''Microsoft.KeyVault/vaults'' kv_web_template
            \<and> (sublist ''Microsoft.Web/sites'' kv_web_template
                 \<or> sublist ''Microsoft.ContainerInstance/containerGroups'' kv_web_template)
            \<and> \<not> sublist ''accessPolicies'' kv_web_template"
    by code_simp
  have h2: "sublist ''accessPolicies'' kv_web_policies_template"
    by code_simp
  have e: "check_resource_dependencies kv_web_template ''main.bicep'' init =
     init\<lparr>warnings := [''main.bicep: Resources using Key Vault should have proper access policies defined'',
                        ''main.bicep: App Services should consider VNet integration for enhanced security'']\<rparr>"
    by code_simp
  from access_policy_warning_rule [of kv_web_template "''main.bicep''" init] h1
  have c1: "count_list (warnings (check_resource_dependencies kv_web_template ''main.bicep'' init))
        (finding ''main.bicep'' access_policy_warning) = 1"
    by (simp add: Let_def)
  from access_policy_warning_rule [of kv_web_policies_template "''main.bicep''" init] h2
  have c2: "finding ''main.bicep'' access_policy_warning
       \<notin> set (warnings (check_resource_dependencies kv_web_policies_template ''main.bicep'' init))"
    by (simp add: Let_def)
  from e c1 c2 show ?thesis by simp
qed

text \<open>
  Claim C10. The dependency check decides on exact substrings: for every text, the
  access-policy warning is appended exactly when \<^verbatim>\<open>Microsoft.KeyVault/vaults\<close>
  and one of \<^verbatim>\<open>Microsoft.Web/sites\<close>,
  \<^verbatim>\<open>Microsoft.ContainerInstance/containerGroups\<close> occur in it as written and
  \<^verbatim>\<open>accessPolicies\<close> does not, and the VNet warning exactly when
  \<^verbatim>\<open>Microsoft.Web/sites\<close> occurs as written and \<^verbatim>\<open>vnetRouteAllEnabled\<close>
  does not. A keyword that the text holds only in another letter case counts as absent.
  The security rules differ: whether a rule of the catalog matches is the same for two
  texts that are equal up to letter case.
\<close>

theorem dependency_tests_are_case_sensitive:
  "(let new = warnings (check_resource_dependencies content file_path init)
    in (finding file_path access_policy_warning \<in> set new \<longleftrightarrow>
          sublist ''Microsoft.KeyVault/vaults'' content
          \<and> (sublist ''Microsoft.Web/sites'' content
               \<or> sublist ''Microsoft.ContainerInstance/containerGroups'' content)
          \<and> \<not> sublist ''accessPolicies'' content)
     \<and> (finding file_path vnet_warning \<in> set new \<longleftrightarrow>
          sublist ''Microsoft.Web/sites'' content
          \<and> \<not> sublist ''vnetRouteAllEnabled'' content))
   \<and> (\<forall>rule \<in> set (map snd security_rules).
         map lower content = map lower content' \<longrightarrow>
         found (re_search (pattern rule) ic_dotall content)
           = found (re_search (pattern rule) ic_dotall content'))"
proof -
  have a: "(let new = warnings (check_resource_dependencies content file_path init)
    in (finding file_path access_policy_warning \<in> set new \<longleftrightarrow>
          sublist ''Microsoft.KeyVault/vaults'' content
          \<and> (sublist ''Microsoft.Web/sites'' content
               \<or> sublist ''Microsoft.ContainerInstance/containerGroups'' content)
          \<and> \<not> sublist ''accessPolicies'' content)
     \<and> (finding file_path vnet_warning \<in> set new \<longleftrightarrow>
          sublist ''Microsoft.Web/sites'' content
          \<and> \<not> sublist ''vnetRouteAllEnabled'' content))"
    using dependency_messages_differ
    by (auto simp: check_resource_dependencies_extend dependency_warnings_def Let_def init_def
          finding_inject)
  have b: "found (re_search (pattern rule) ic_dotall content)
           = found (re_search (pattern rule) ic_dotall content')"
    if "rule \<in> set (map snd security_rules)" "map lower content = map lower content'" for rule
  proof -
    from that(1) obtain name where "(name, rule) \<in> set security_rules" by auto
    then show ?thesis using that(2) by (rule security_match_ignores_case)
  qed
  from a b show ?thesis by blast
qed

theorem dependency_tests_are_case_sensitive_witness:
  "sublist (map lower ''Microsoft.Web/sites'') (map lower lower_case_template)
   \<and> \<not> sublist ''Microsoft.Web/sites'' lower_case_template
   \<and> sublist (map lower ''accessPolicies'') (map lower lower_case_template)
   \<and> \<not> sublist ''accessPolicies'' lower_case_template
   \<and> finding ''main.bicep'' vnet_warning
       \<notin> set (warnings (check_resource_dependencies lower_case_template ''main.bicep'' init))
   \<and> finding ''main.bicep'' access_policy_warning
       \<in> set (warnings (check_resource_dependencies lower_case_template ''main.bicep'' init))
   \<and> https_rule \<in> set (map snd security_rules)
   \<and> map lower ''httpsOnly: true'' = map lower upper_case_https
   \<and> found (re_search (pattern https_rule) ic_dotall ''httpsOnly: true'')
   \<and> found (re_search (pattern https_rule) ic_dotall upper_case_https)"
proof -
  have h: "sublist (map lower ''Microsoft.Web/sites'') (map lower lower_case_template)
   \<and> \<not> sublist ''Microsoft.Web/sites'' lower_case_template
   \<and> sublist (map lower ''accessPolicies'') (map lower lower_case_template)
   \<and> \<not> sublist ''accessPolicies'' lower_case_template"
    by code_simp
  have k: "sublist ''Microsoft.KeyVault/vaults'' lower_case_template
           \<and> sublist ''Microsoft.ContainerInstance/containerGroups'' lower_case_template"
    by code_simp
  have n: "\<not> sublist ''Microsoft.Web/sites'' lower_case_template
           \<and> \<not> sublist ''accessPolicies'' lower_case_template"
    using h by blast
  have r: "https_rule \<in> set (map snd security_rules)"
    by (simp add: https_rule_def security_rules_def)
  have e: "map lower ''httpsOnly: true'' = map lower upper_case_https"
    by code_simp
  have s: "found (re_search (pattern https_rule) ic_dotall ''httpsOnly: true'')"
    by code_simp
  note t = dependency_tests_are_case_sensitive
             [where content = lower_case_template and file_path = "''main.bicep''"
                and content' = lower_case_template]
  from t n k
  have d: "finding ''main.bicep'' vnet_warning
       \<notin> set (warnings (check_resource_dependencies lower_case_template ''main.bicep'' init))
   \<and> finding ''main.bicep'' access_policy_warning
       \<in> set (warnings (check_resource_dependencies lower_case_template ''main.bicep'' init))"
    by (simp add: Let_def)
  from dependency_tests_are_case_sensitive
         [where content = "''httpsOnly: true''" and content' = upper_case_https
            and file_path = "''main.bicep''"] r e s
  have u: "found (re_search (pattern https_rule) ic_dotall upper_case_https)"
    by blast
  from h d r e s u show ?thesis by blast
qed

text \<open>
  Claim C4. The hardcoded-value check appends only errors, and for each of its five
  patterns exactly one entry when the pattern matches somewhere in the text and none
  when it does not, however often it matches. The password pattern matches exactly the
  texts that hold the keyword, an assignment sign and, between two quote characters, at
  least eight characters that are not quote characters; the patterns for
  \<^verbatim>\<open>connectionString\<close>, \<^verbatim>\<open>apiKey\<close>, \<^verbatim>\<open>secret\<close> and \<^verbatim>\<open>token\<close>
  ask for at least one such character. A text that is only
  \<^verbatim>\<open>password = "abcdefgh"\<close> gives the one password error; a text that is only
  \<^verbatim>\<open>password = "short"\<close> gives none.
\<close>

theorem hardcoded_value_errors:
  "(let new = errors (check_hardcoded_values content file_path init)
    in check_hardcoded_values content file_path st = st\<lparr>errors := errors st @ new\<rparr>
       \<and> (\<forall>pm \<in> set hardcoded_patterns.
             count_list new (finding file_path (snd pm))
               = (if found (re_search (fst pm) ic content) then 1 else 0)))
   \<and> map (\<lambda>pm. found (re_search (fst pm) ic content)) hardcoded_patterns
       = [quoted_literal_after ''password'' 8 content,
          quoted_literal_after ''connectionString'' 1 content,
          quoted_literal_after ''apiKey'' 1 content,
          quoted_literal_after ''secret'' 1 content,
          quoted_literal_after ''token'' 1 content]
   \<and> errors (check_hardcoded_values (assignment ''password'' ''abcdefgh'') file_path init)
       = [finding file_path ''Possible hardcoded password'']
   \<and> errors (check_hardcoded_values (assignment ''password'' ''short'') file_path init) = []"
proof -
  have a: "check_hardcoded_values content file_path st
           = st\<lparr>errors := errors st @ errors (check_hardcoded_values content file_path init)\<rparr>"
    by (simp add: check_hardcoded_values_extend extend_def init_def)
  have b: "count_list (errors (check_hardcoded_values content file_path init))
             (finding file_path (snd pm))
           = (if found (re_search (fst pm) ic content) then 1 else 0)"
    if "pm \<in> set hardcoded_patterns" for pm
    using count_list_map_filter
            [OF hardcoded_messages_distinct inj_finding that,
             of file_path "\<lambda>pm. found (re_search (fst pm) ic content)"]
    by (simp add: check_hardcoded_values_extend hardcoded_errors_def init_def)
  have l: "map snd (filter (\<lambda>pm. found (re_search (fst pm) ic (assignment ''password'' ''abcdefgh'')))
                      hardcoded_patterns) = [''Possible hardcoded password'']"
    by code_simp
  have s: "map snd (filter (\<lambda>pm. found (re_search (fst pm) ic (assignment ''password'' ''short'')))
                      hardcoded_patterns) = []"
    by code_simp
  have m: "hardcoded_errors c file_path
           = map (finding file_path)
               (map snd (filter (\<lambda>pm. found (re_search (fst pm) ic c)) hardcoded_patterns))" for c
    by (simp add: hardcoded_errors_def)
  have c: "errors (check_hardcoded_values (assignment ''password'' ''abcdefgh'') file_path init)
       = [finding file_path ''Possible hardcoded password'']"
    by (simp only: check_hardcoded_values_extend extend_sel m l) (simp add: init_def)
  have d: "errors (check_hardcoded_values (assignment ''password'' ''short'') file_path init) = []"
    by (simp only: check_hardcoded_values_extend extend_sel m s) (simp add: init_def)
  from a b have ab: "(let new = errors (check_hardcoded_values content file_path init)
    in check_hardcoded_values content file_path st = st\<lparr>errors := errors st @ new\<rparr>
       \<and> (\<forall>pm \<in> set hardcoded_patterns.
             count_list new (finding file_path (snd pm))
               = (if found (re_search (fst pm) ic content) then 1 else 0)))"
    by (simp add: Let_def)
  show ?thesis
    by (rule conjI [OF ab conjI [OF hardcoded_found conjI [OF c d]]])
qed

theorem hardcoded_value_errors_witness:
  "errors (check_hardcoded_values
             (assignment ''password'' ''abcdefgh'' @ nl @ assignment ''PASSWORD'' ''ijklmnopq'')
             ''main.bicep'' init)
     = [''main.bicep: Possible hardcoded password'']
   \<and> count_list (errors (check_hardcoded_values
             (assignment ''password'' ''abcdefgh'' @ nl @ assignment ''PASSWORD'' ''ijklmnopq'')
             ''main.bicep'' init)) (finding ''main.bicep'' ''Possible hardcoded password'') = 1
   \<and> errors (check_hardcoded_values (assignment ''password'' ''abcdefgh'') ''main.bicep'' init)
       = [''main.bicep: Possible hardcoded password'']
   \<and> errors (check_hardcoded_values (assignment ''password'' ''short'') ''main.bicep'' init) = []
   \<and> quoted_literal_after ''apiKey'' 1 (assignment ''APIKEY'' ''x'')
   \<and> \<not> quoted_literal_after ''password'' 8 (assignment ''password'' ''short'')"
proof -
  let ?twice = "assignment ''password'' ''abcdefgh'' @ nl @ assignment ''PASSWORD'' ''ijklmnopq''"
  have e: "errors (check_hardcoded_values ?twice ''main.bicep'' init)
             = [''main.bicep: Possible hardcoded password'']"
    by code_simp
  have p: "hardcoded_patterns ! 0 \<in> set hardcoded_patterns"
    by (simp add: hardcoded_patterns_def)
  have f: "found (re_search (fst (hardcoded_patterns ! 0)) ic ?twice)"
    by code_simp
  have n: "snd (hardcoded_patterns ! 0) = ''Possible hardcoded password''"
    by (simp add: hardcoded_patterns_def)
  have g: "finding ''main.bicep'' ''Possible hardcoded password''
           = ''main.bicep: Possible hardcoded password''"
    by (simp add: finding_def)
  note t = hardcoded_value_errors [of ?twice "''main.bicep''" init]
  from t [THEN conjunct1]
  have "\<forall>pm \<in> set hardcoded_patterns.
             count_list (errors (check_hardcoded_values ?twice ''main.bicep'' init))
               (finding ''main.bicep'' (snd pm))
               = (if found (re_search (fst pm) ic ?twice) then 1 else 0)"
    unfolding Let_def by (rule conjunct2)
  from bspec [OF this p]
  have c: "count_list (errors (check_hardcoded_values ?twice ''main.bicep'' init))
                          (finding ''main.bicep'' ''Possible hardcoded password'') = 1"
    unfolding n using f by simp
  from t [THEN conjunct2, THEN conjunct2]
  have x: "errors (check_hardcoded_values (assignment ''password'' ''abcdefgh'') ''main.bicep'' init)
       = [''main.bicep: Possible hardcoded password'']
   \<and> errors (check_hardcoded_values (assignment ''password'' ''short'') ''main.bicep'' init) = []"
    unfolding g .
  have k: "map (\<lambda>pm. found (re_search (fst pm) ic (assignment ''APIKEY'' ''x''))) hardcoded_patterns
             = [False, False, True, False, False]"
    by code_simp
  from hardcoded_value_errors [of "assignment ''APIKEY'' ''x''" "''main.bicep''" init,
         THEN conjunct2, THEN conjunct1]
  have y: "quoted_literal_after ''apiKey'' 1 (assignment ''APIKEY'' ''x'')"
    unfolding k by simp
  have j: "map (\<lambda>pm. found (re_search (fst pm) ic (assignment ''password'' ''short''))) hardcoded_patterns
             = [False, False, False, False, False]"
    by code_simp
  from hardcoded_value_errors [of "assignment ''password'' ''short''" "''main.bicep''" init,
         THEN conjunct2, THEN conjunct1]
  have z: "\<not> quoted_literal_after ''password'' 8 (assignment ''password'' ''short'')"
    unfolding j by simp
  show ?thesis
    by (rule conjI [OF e conjI [OF c conjI [OF x [THEN conjunct1]
          conjI [OF x [THEN conjunct2] conjI [OF y z]]]]])
qed

text \<open>
  Claim C5. The naming check searches the whole text for \<^verbatim>\<open>name: '...'\<close> and
  uses, for every declaration whose type has a naming rule, the text between the quotes
  of the leftmost occurrence; it appends only warnings. With a storage account named
  \<^verbatim>\<open>st123\<close> followed by a key vault named \<^verbatim>\<open>kv-main\<close>, the name checked
  for the key vault is \<^verbatim>\<open>st123\<close>, and the key vault gets a warning.
\<close>

theorem naming_check_uses_first_name:
  "check_naming_conventions content file_path st =
     st\<lparr>warnings := warnings st
          @ concat (map (declaration_warnings file_path (declared_name content))
                      (re_findall resource_pattern no_flags content))\<rparr>
   \<and> (declared_name content = Some v \<longleftrightarrow>
        (\<exists>pre. name_occurrence content pre v
           \<and> (\<forall>pre' v'. name_occurrence content pre' v' \<longrightarrow> length pre \<le> length pre')))
   \<and> (declared_name content = None \<longleftrightarrow> (\<forall>pre v'. \<not> name_occurrence content pre v'))
   \<and> declared_name two_resources_template = Some ''st123''
   \<and> check_naming_conventions two_resources_template file_path st =
       st\<lparr>warnings := warnings st
            @ [naming_message file_path ''kv'' ''Microsoft.KeyVault/vaults''
                 ''^kv-[a-z0-9-]+$'']\<rparr>"
proof -
  have a: "check_naming_conventions c file_path st =
     st\<lparr>warnings := warnings st
          @ concat (map (declaration_warnings file_path (declared_name c))
                      (re_findall resource_pattern no_flags c))\<rparr>" for c
    by (simp add: check_naming_extend extend_def)
  have n: "declared_name two_resources_template = Some ''st123''"
    by code_simp
  have d: "re_findall resource_pattern no_flags two_resources_template
           = [(''sa'', ''Microsoft.Storage/storageAccounts''), (''kv'', ''Microsoft.KeyVault/vaults'')]"
    by code_simp
  have r1: "map_option text_of (rule_for_type ''Microsoft.Storage/storageAccounts'')
              = Some ''^st[a-z0-9]{3,22}$''
            \<and> found (re_match (regex_of (the (rule_for_type ''Microsoft.Storage/storageAccounts'')))
                       no_flags ''st123'')"
    by code_simp
  have r2: "map_option text_of (rule_for_type ''Microsoft.KeyVault/vaults'')
              = Some ''^kv-[a-z0-9-]+$''
            \<and> \<not> found (re_match (regex_of (the (rule_for_type ''Microsoft.KeyVault/vaults'')))
                         no_flags ''st123'')"
    by code_simp
  have w1: "declaration_warnings file_path (Some ''st123'')
              (''sa'', ''Microsoft.Storage/storageAccounts'') = []"
    using r1 by (auto simp: declaration_warnings_def split: option.splits)
  have w2: "declaration_warnings file_path (Some ''st123'') (''kv'', ''Microsoft.KeyVault/vaults'')
            = [naming_message file_path ''kv'' ''Microsoft.KeyVault/vaults'' ''^kv-[a-z0-9-]+$'']"
    using r2 by (auto simp: declaration_warnings_def split: option.splits)
  have b: "check_naming_conventions two_resources_template file_path st =
       st\<lparr>warnings := warnings st
            @ [naming_message file_path ''kv'' ''Microsoft.KeyVault/vaults''
                 ''^kv-[a-z0-9-]+$'']\<rparr>"
    by (simp only: a n d list.map concat.simps w1 w2 append_Nil append_Nil2)
  from a [of content] declared_name_first [of content v] declared_name_None [of content] n b
  show ?thesis by blast
qed

theorem naming_check_uses_first_name_witness:
  "re_findall resource_pattern no_flags two_resources_template
     = [(''sa'', ''Microsoft.Storage/storageAccounts''), (''kv'', ''Microsoft.KeyVault/vaults'')]
   \<and> declared_name two_resources_template = Some ''st123''
   \<and> (\<exists>pre. name_occurrence two_resources_template pre ''st123''
         \<and> (\<forall>pre' v'. name_occurrence two_resources_template pre' v'
               \<longrightarrow> length pre \<le> length pre'))
   \<and> check_naming_conventions two_resources_template ''main.bicep'' init =
       init\<lparr>warnings := [''main.bicep: Resource '' @ [sq] @ ''kv'' @ [sq] @ '' of type '' @ [sq]
              @ ''Microsoft.KeyVault/vaults'' @ [sq]
              @ '' should follow naming convention: ^kv-[a-z0-9-]+$'']\<rparr>"
proof -
  have d: "re_findall resource_pattern no_flags two_resources_template
     = [(''sa'', ''Microsoft.Storage/storageAccounts''), (''kv'', ''Microsoft.KeyVault/vaults'')]"
    by code_simp
  note t = naming_check_uses_first_name
             [where content = two_resources_template and file_path = "''main.bicep''"
                and st = init and v = "''st123''"]
  from t have n: "declared_name two_resources_template = Some ''st123''"
    by blast
  from t n have o: "\<exists>pre. name_occurrence two_resources_template pre ''st123''
         \<and> (\<forall>pre' v'. name_occurrence two_resources_template pre' v'
               \<longrightarrow> length pre \<le> length pre')"
    by blast
  from t have c: "check_naming_conventions two_resources_template ''main.bicep'' init =
       init\<lparr>warnings := warnings init
            @ [naming_message ''main.bicep'' ''kv'' ''Microsoft.KeyVault/vaults''
                 ''^kv-[a-z0-9-]+$'']\<rparr>"
    by blast
  from c have "check_naming_conventions two_resources_template ''main.bicep'' init =
       init\<lparr>warnings := [''main.bicep: Resource '' @ [sq] @ ''kv'' @ [sq] @ '' of type '' @ [sq]
              @ ''Microsoft.KeyVault/vaults'' @ [sq]
              @ '' should follow naming convention: ^kv-[a-z0-9-]+$'']\<rparr>"
    by (simp add: naming_message_def init_def)
  with d n o show ?thesis by blast
qed




end
